theory Spec2Isabelle
  imports Main "HOL-Library.Word" "HOL-Library.Code_Target_Numeral"
begin

unbundle bit_operations_syntax

text \<open>
  A shallow embedding of the file-sharing server (\<open>server.cpp\<close>): its framing layer,
  its byte transform, its bulk transfer protocol and the session that \<open>handle_client\<close>
  runs on one connection. The client (\<open>client.cpp\<close>) repeats \<open>send_all\<close>, \<open>recv_all\<close>,
  \<open>send_line\<close>, \<open>recv_line\<close>, \<open>xor_in_place\<close>, the byte-order helpers and the two bulk
  transfer functions word for word, and prints a progress line per chunk in addition.
  What the programs print on the console is not modelled.
\<close>

section \<open>Machine integers, byte order and object representation\<close>

text \<open>
  The C++ type \<open>char\<close> (elements of \<open>std::string\<close> and \<open>std::vector<char>\<close>) is
  modelled by HOL's 8-bit \<open>char\<close>, \<open>uint32_t\<close> and \<open>uint64_t\<close> by 32- and 64-bit words.
  The model is that of a little-endian host: \<open>htonl\<close> swaps the four bytes of its
  argument, and an integer object handed to \<open>send_all\<close> / filled by \<open>recv_all\<close> through
  its address is read and written lowest byte first (\<open>store32\<close>, \<open>store64\<close>, \<open>load\<close>).
\<close>

type_synonym u32 = "32 word"
type_synonym u64 = "64 word"

definition XOR_KEY :: "8 word" where
  "XOR_KEY = 0x5A"

definition htonl :: "u32 \<Rightarrow> u32" where
  "htonl x = drop_bit 24 (x AND 0xFF000000) OR drop_bit 8 (x AND 0x00FF0000)
           OR push_bit 8 (x AND 0x0000FF00) OR push_bit 24 (x AND 0x000000FF)"

definition ntohl :: "u32 \<Rightarrow> u32" where
  "ntohl x = htonl x"

definition host_to_be64 :: "u64 \<Rightarrow> u64" where
  "host_to_be64 host =
     (let hi = htonl (ucast (drop_bit 32 host));
          lo = htonl (ucast (host AND 0xFFFFFFFF))
      in push_bit 32 (ucast lo) OR ucast hi)"

definition be64_to_host :: "u64 \<Rightarrow> u64" where
  "be64_to_host be =
     (let lo = ntohl (ucast (drop_bit 32 be));
          hi = ntohl (ucast (be AND 0xFFFFFFFF))
      in push_bit 32 (ucast hi) OR ucast lo)"

text \<open>Byte \<open>i\<close> of an integer object, counted from the least significant byte.\<close>

definition byte_at :: "'a::len word \<Rightarrow> nat \<Rightarrow> char" where
  "byte_at w i = char_of (unat (drop_bit (8 * i) w))"

definition store32 :: "u32 \<Rightarrow> char list" where
  "store32 w = [byte_at w 0, byte_at w 1, byte_at w 2, byte_at w 3]"

definition store64 :: "u64 \<Rightarrow> char list" where
  "store64 w = [byte_at w 0, byte_at w 1, byte_at w 2, byte_at w 3,
                byte_at w 4, byte_at w 5, byte_at w 6, byte_at w 7]"

fun load :: "char list \<Rightarrow> 'a::len word" where
  "load [] = 0"
| "load (c # cs) = of_char c OR push_bit 8 (load cs)"

text \<open>
  The big-endian encoding of a natural number in \<open>k\<close> bytes (most significant byte
  first), stated arithmetically. It is the reference the wire headers are compared with.
\<close>

definition be_bytes :: "nat \<Rightarrow> nat \<Rightarrow> char list" where
  "be_bytes k n = map (\<lambda>i. char_of (n div 256 ^ i)) (rev [0..<k])"

section \<open>Transform codec\<close>

text \<open>
  \<open>buf[i] ^= XOR_KEY\<close>: both operands are promoted to \<open>int\<close>, combined, and the result
  is converted back to \<open>char\<close> (its low eight bits).
\<close>

definition xor_char :: "char \<Rightarrow> char" where
  "xor_char c = char_of ((of_char c :: int) XOR uint XOR_KEY)"

text \<open>
  \<open>for (size_t i = 0; i < n; ++i) buf[i] ^= XOR_KEY;\<close> as a loop over the index.
  The vector access of the source is unchecked: a call with \<open>n\<close> beyond the buffer is
  undefined behaviour in C++ (every call site passes \<open>n \<le> buf.size()\<close>), so the results
  below are stated for \<open>n \<le> length buf\<close> only.
\<close>

function xor_loop :: "char list \<Rightarrow> nat \<Rightarrow> nat \<Rightarrow> char list" where
  "xor_loop buf i n = (if i < n then xor_loop (buf[i := xor_char (buf ! i)]) (Suc i) n else buf)"
  by pat_completeness auto
termination
  by (relation "measure (\<lambda>(buf, i, n). n - i)") auto

declare xor_loop.simps [simp del]

definition xor_in_place :: "char list \<Rightarrow> nat \<Rightarrow> char list" where
  "xor_in_place buf n = xor_loop buf 0 n"

section \<open>The socket\<close>

text \<open>
  One end of a connected stream socket. \<open>rx\<close> holds the bytes the peer has sent and
  this end has not read yet; once it is empty the peer has closed and \<open>recv\<close> returns 0.
  \<open>tx\<close> collects the bytes \<open>send\<close> has accepted, in order. The kernel decides how many
  bytes a single call transfers: \<open>rx_sched\<close> and \<open>tx_sched\<close> give, call by call, the most
  it transfers (a short read or write); the entry 0 is a call that fails with -1, and
  after the last entry every call transfers all it is asked for.
\<close>

record sock =
  rx :: "char list"
  rx_sched :: "nat list"
  tx :: "char list"
  tx_sched :: "nat list"

text \<open>\<open>recv(fd, p, len, 0)\<close>: the return value, the bytes stored at \<open>p\<close>, the socket.\<close>

definition recv :: "sock \<Rightarrow> nat \<Rightarrow> int \<times> char list \<times> sock" where
  "recv s len =
     (let k = (case rx_sched s of [] \<Rightarrow> len | k # _ \<Rightarrow> k);
          n = min len (min k (length (rx s)));
          s' = s\<lparr>rx_sched := tl (rx_sched s)\<rparr>
      in if k = 0 then (- 1, [], s')
         else (int n, take n (rx s), s'\<lparr>rx := drop n (rx s)\<rparr>))"

text \<open>\<open>send(fd, p, len, 0)\<close> with \<open>data\<close> the \<open>len\<close> bytes at \<open>p\<close>.\<close>

definition send :: "sock \<Rightarrow> char list \<Rightarrow> int \<times> sock" where
  "send s data =
     (let k = (case tx_sched s of [] \<Rightarrow> length data | k # _ \<Rightarrow> k);
          n = min (length data) k;
          s' = s\<lparr>tx_sched := tl (tx_sched s)\<rparr>
      in if k = 0 then (- 1, s')
         else (int n, s'\<lparr>tx := tx s @ take n data\<rparr>))"

function send_all :: "sock \<Rightarrow> char list \<Rightarrow> bool \<times> sock" where
  "send_all s data =
     (if length data > 0 then
        (case send s data of (r, s') \<Rightarrow>
           if r \<le> 0 then (False, s') else send_all s' (drop (nat r) data))
      else (True, s))"
  by pat_completeness auto
termination
  by (relation "measure (\<lambda>(s, data). length data)") auto

declare send_all.simps [simp del]

text \<open>
  \<open>recv_all\<close> returns the bytes it stored in the caller's buffer when it succeeds. When
  it fails the buffer is partly filled; no caller reads it then, and the model returns
  \<open>None\<close>.
\<close>

function recv_all :: "sock \<Rightarrow> nat \<Rightarrow> char list option \<times> sock" where
  "recv_all s len =
     (if len > 0 then
        (case recv s len of (r, got, s') \<Rightarrow>
           if r \<le> 0 then (None, s')
           else (case recv_all s' (len - nat r) of
                   (None, s'') \<Rightarrow> (None, s'')
                 | (Some rest, s'') \<Rightarrow> (Some (got @ rest), s'')))
      else (Some [], s))"
  by pat_completeness auto
termination
  by (relation "measure (\<lambda>(s, len). len)") auto

declare recv_all.simps [simp del]

section \<open>Framing layer\<close>

text \<open>
  \<open>(uint32_t)s.size()\<close> keeps the size modulo \<open>2 ^ 32\<close>: \<open>of_nat\<close> into a 32-bit word.
  In \<open>recv_line\<close>, \<open>out.assign(n, 0)\<close> allocates the \<open>n\<close> bytes that \<open>recv_all\<close> then
  fills; a failure of that allocation is not modelled.
\<close>

definition send_line :: "sock \<Rightarrow> string \<Rightarrow> bool \<times> sock" where
  "send_line s str =
     (let n = htonl (of_nat (length str)) in
      case send_all s (store32 n) of
        (False, s1) \<Rightarrow> (False, s1)
      | (True, s1) \<Rightarrow>
          (case send_all s1 str of
             (False, s2) \<Rightarrow> (False, s2)
           | (True, s2) \<Rightarrow> (True, s2)))"

definition recv_line :: "sock \<Rightarrow> string option \<times> sock" where
  "recv_line s =
     (case recv_all s 4 of
        (None, s1) \<Rightarrow> (None, s1)
      | (Some hdr, s1) \<Rightarrow>
          (let n = ntohl (load hdr) in
           if n = 0 then (Some [], s1)
           else (case recv_all s1 (unat n) of
                   (None, s2) \<Rightarrow> (None, s2)
                 | (Some bytes, s2) \<Rightarrow> (Some bytes, s2))))"

section \<open>Files and the bulk transfer protocol\<close>

text \<open>
  What an \<open>ifstream\<close> meets at a path when it opens. A regular file has its content:
  \<open>seekg(0, end)\<close> and \<open>tellg\<close> report its length and \<open>read\<close> delivers its bytes. A
  directory opens for reading as well (\<open>open(2)\<close> with \<open>O_RDONLY\<close> succeeds on it, and
  \<open>ensure_dirs\<close> makes \<open>server_files/uploads\<close> one): \<open>tellg\<close> at its end reports the
  offset the file system gives it, carried here as the argument (\<open>2 ^ 63 - 1\<close> on ext4,
  all ones when the seek fails), and every \<open>read\<close> fails and delivers no byte.
\<close>

datatype fnode = Regular "char list" | Directory u64

text \<open>\<open>(uint64_t)in.tellg()\<close> after \<open>in.seekg(0, std::ios::end)\<close>.\<close>

fun tell_end :: "fnode \<Rightarrow> u64" where
  "tell_end (Regular content) = of_nat (length content)"
| "tell_end (Directory off) = off"

text \<open>The bytes successive \<open>read\<close> and \<open>getline\<close> calls deliver before they fail.\<close>

fun stream_bytes :: "fnode \<Rightarrow> char list" where
  "stream_bytes (Regular content) = content"
| "stream_bytes (Directory off) = []"

text \<open>
  What a process acts on: its connection and its file system. \<open>files p\<close> is what an
  \<open>ifstream\<close> on the path \<open>p\<close> meets when it opens (\<open>None\<close> when it does not open);
  \<open>writable p\<close> tells whether an \<open>ofstream\<close> on \<open>p\<close> opens; \<open>dirs p\<close> are the names
  \<open>readdir\<close> yields for directory \<open>p\<close> (\<open>None\<close> when \<open>opendir\<close> fails). \<open>fs_log\<close>
  records every attempt to open a file or a directory, in order, and \<open>closed\<close> that
  \<open>close(cfd)\<close> was called.
\<close>

datatype fs_access = OpenRead string | OpenWrite string | OpenDir string

record world =
  conn :: sock
  files :: "string \<Rightarrow> fnode option"
  writable :: "string \<Rightarrow> bool"
  dirs :: "string \<Rightarrow> string list option"
  fs_log :: "fs_access list"
  closed :: bool

text \<open>
  The streams take the path as \<open>path.c_str()\<close>: the file system sees the characters
  before the first NUL only.
\<close>

definition c_str :: "string \<Rightarrow> string" where
  "c_str path = takeWhile (\<lambda>c. c \<noteq> CHR 0x00) path"

text \<open>\<open>std::ifstream in(path, std::ios::binary)\<close>: what it meets, and the access logged.\<close>

definition open_read :: "world \<Rightarrow> string \<Rightarrow> fnode option \<times> world" where
  "open_read w path =
     (files w (c_str path), w\<lparr>fs_log := fs_log w @ [OpenRead (c_str path)]\<rparr>)"

text \<open>The size of \<open>std::vector<char> buf(64 * 1024)\<close>, which never changes.\<close>

definition BUF_SIZE :: nat where
  "BUF_SIZE = 64 * 1024"

text \<open>
  The loop \<open>while (in) { in.read(buf.data(), buf.size()); got = in.gcount(); ... }\<close> of
  \<open>send_file_encrypted\<close>. \<open>src\<close> is what the input stream has not delivered yet and
  \<open>good\<close> its state: a read that meets the end of the file before \<open>buf.size()\<close>
  characters sets \<open>eofbit\<close> and \<open>failbit\<close>, which ends the loop at the next test.
\<close>

function send_chunks :: "sock \<Rightarrow> char list \<Rightarrow> char list \<Rightarrow> bool \<Rightarrow> bool \<times> sock" where
  "send_chunks s buf src good =
     (if good then
        (let got = min BUF_SIZE (length src);
             buf1 = take got src @ drop got buf;
             good1 = (BUF_SIZE \<le> length src)
         in if got \<le> 0 then (True, s)
            else (let buf2 = xor_in_place buf1 got in
                  case send_all s (take got buf2) of
                    (False, s1) \<Rightarrow> (False, s1)
                  | (True, s1) \<Rightarrow> send_chunks s1 buf2 (drop got src) good1))
      else (True, s))"
  by pat_completeness auto
termination
  by (relation "measure (\<lambda>(s, buf, src, good). length src)") auto

declare send_chunks.simps [simp del]

text \<open>
  The size sent ahead is \<open>(uint64_t)in.tellg()\<close> at the end of what was opened, whatever
  the loop then manages to read. The file is opened before anything is sent.
\<close>

definition send_file_encrypted :: "world \<Rightarrow> string \<Rightarrow> bool \<times> world" where
  "send_file_encrypted w path =
     (case open_read w path of
        (None, w1) \<Rightarrow> (False, w1)
      | (Some node, w1) \<Rightarrow>
          (let size = tell_end node;
               size_be = host_to_be64 size
           in case send_all (conn w1) (store64 size_be) of
                (False, s1) \<Rightarrow> (False, w1\<lparr>conn := s1\<rparr>)
              | (True, s1) \<Rightarrow>
                  (case send_chunks s1 (replicate BUF_SIZE (CHR 0x00)) (stream_bytes node) True of
                     (ok, s2) \<Rightarrow> (ok, w1\<lparr>conn := s2\<rparr>))))"

text \<open>
  \<open>out.write(buf.data(), chunk)\<close> on the stream opened on the file \<open>path\<close> (a path as the
  file system sees it): appends.
\<close>

definition write_file :: "world \<Rightarrow> string \<Rightarrow> char list \<Rightarrow> world" where
  "write_file w path bytes =
     w\<lparr>files := (files w)(path \<mapsto>
          Regular ((case files w path of Some (Regular old) \<Rightarrow> old | _ \<Rightarrow> []) @ bytes))\<rparr>"

lemma unat_sub_chunk:
  "0 < (left :: u64) \<Longrightarrow> unat (left - of_nat (min BUF_SIZE (unat left))) < unat left"
proof -
  assume l: "0 < left"
  let ?c = "min BUF_SIZE (unat left)"
  have c: "0 < ?c" "?c \<le> unat left"
    using l by (simp_all add: BUF_SIZE_def word_greater_zero_iff unat_gt_0)
  have u: "unat (of_nat ?c :: u64) = ?c"
    using c(2) by (rule le_unat_uoi)
  then have "(of_nat ?c :: u64) \<le> left"
    using c(2) by (simp add: word_le_nat_alt)
  then have "unat (left - of_nat ?c) = unat left - ?c"
    using u by (simp add: unat_sub)
  then show ?thesis using c by simp
qed

text \<open>The loop \<open>while (left > 0) { ... }\<close> of \<open>recv_file_encrypted\<close>.\<close>

function recv_chunks :: "world \<Rightarrow> string \<Rightarrow> char list \<Rightarrow> u64 \<Rightarrow> bool \<times> world" where
  "recv_chunks w path buf left =
     (if left > 0 then
        (let chunk = min BUF_SIZE (unat left) in
         case recv_all (conn w) chunk of
           (None, s1) \<Rightarrow> (False, w\<lparr>conn := s1\<rparr>)
         | (Some bytes, s1) \<Rightarrow>
             (let buf1 = bytes @ drop chunk buf;
                  buf2 = xor_in_place buf1 chunk;
                  w1 = write_file (w\<lparr>conn := s1\<rparr>) path (take chunk buf2)
              in recv_chunks w1 path buf2 (left - of_nat chunk)))
      else (True, w))"
  by pat_completeness auto
termination
  by (relation "measure (\<lambda>(w, path, buf, left). unat left)") (auto simp add: unat_sub_chunk)

declare recv_chunks.simps [simp del]

text \<open>
  The header is read first; only then is the destination opened, which truncates it.
  Each chunk is written as soon as it is decoded, and no path of the function removes
  or restores the file.
\<close>

definition recv_file_encrypted :: "world \<Rightarrow> string \<Rightarrow> bool \<times> world" where
  "recv_file_encrypted w path =
     (case recv_all (conn w) 8 of
        (None, s1) \<Rightarrow> (False, w\<lparr>conn := s1\<rparr>)
      | (Some hdr, s1) \<Rightarrow>
          (let size = be64_to_host (load hdr);
               w1 = w\<lparr>conn := s1, fs_log := fs_log w @ [OpenWrite (c_str path)]\<rparr>
           in if \<not> writable w (c_str path) then (False, w1)
              else recv_chunks (w1\<lparr>files := (files w1)(c_str path \<mapsto> Regular [])\<rparr>) (c_str path)
                     (replicate BUF_SIZE (CHR 0x00)) size))"

section \<open>Session protocol: helpers\<close>

definition ROOT_DIR :: string where
  "ROOT_DIR = ''server_files''"

definition UPLOAD_DIR :: string where
  "UPLOAD_DIR = ''server_files/uploads''"

definition USERS_FILE :: string where
  "USERS_FILE = ''users.txt''"

text \<open>\<open>std::string::find\<close> for a character and for a string; \<open>None\<close> is \<open>npos\<close>.\<close>

fun find_char :: "char \<Rightarrow> string \<Rightarrow> nat option" where
  "find_char c [] = None"
| "find_char c (x # xs) = (if x = c then Some 0 else map_option Suc (find_char c xs))"

fun find_str :: "string \<Rightarrow> string \<Rightarrow> nat option" where
  "find_str pat [] = (if pat = [] then Some 0 else None)"
| "find_str pat (x # xs) =
     (if take (length pat) (x # xs) = pat then Some 0 else map_option Suc (find_str pat xs))"

definition safe_filename :: "string \<Rightarrow> bool" where
  "safe_filename name \<longleftrightarrow>
     name \<noteq> [] \<and> find_str ''..'' name = None \<and> find_char (CHR ''/'') name = None
     \<and> find_char (CHR 0x5C) name = None"

text \<open>
  \<open>std::getline\<close> in a loop: the lines of a file. \<open>cur\<close> holds the characters of the
  line being read, latest first. At the end of the file a line without its newline is
  still delivered, unless no character was read for it.
\<close>

fun getlines :: "string \<Rightarrow> string \<Rightarrow> string list" where
  "getlines cur [] = (if cur = [] then [] else [rev cur])"
| "getlines cur (c # cs) =
     (if c = CHR 0x0A then rev cur # getlines [] cs else getlines (c # cur) cs)"

text \<open>The loop of \<open>check_auth\<close> over the lines of the credential file.\<close>

fun check_lines :: "string list \<Rightarrow> string \<Rightarrow> string \<Rightarrow> bool" where
  "check_lines [] user pass = False"
| "check_lines (line # rest) user pass =
     (case find_char (CHR '':'') line of
        None \<Rightarrow> check_lines rest user pass
      | Some pos \<Rightarrow>
          (let u = take pos line; p = drop (pos + 1) line in
           if u = user \<and> p = pass then True else check_lines rest user pass))"

definition check_auth :: "world \<Rightarrow> string \<Rightarrow> string \<Rightarrow> bool \<times> world" where
  "check_auth w user pass =
     (case open_read w USERS_FILE of
        (None, w1) \<Rightarrow> (False, w1)
      | (Some node, w1) \<Rightarrow> (check_lines (getlines [] (stream_bytes node)) user pass, w1))"

text \<open>The \<open>readdir\<close> loop of \<open>list_files\<close>; \<open>oss\<close> is the output string stream.\<close>

fun list_entries :: "string \<Rightarrow> string list \<Rightarrow> string" where
  "list_entries oss [] = oss"
| "list_entries oss (n # ns) =
     (if n = ''.'' \<or> n = ''..'' \<or> n = ''uploads'' then list_entries oss ns
      else list_entries (oss @ n @ [CHR 0x0A]) ns)"

definition list_files :: "world \<Rightarrow> string \<times> world" where
  "list_files w =
     (let w1 = w\<lparr>fs_log := fs_log w @ [OpenDir ROOT_DIR]\<rparr> in
      case dirs w ROOT_DIR of
        None \<Rightarrow> (''ERR: cannot open server_files'' @ [CHR 0x0A], w1)
      | Some entries \<Rightarrow> (list_entries [] entries, w1))"

text \<open>
  \<open>iss >> word\<close> on a \<open>std::istringstream\<close>: skip white space (of the classic locale),
  then take characters up to the next white space. The stream is modelled by the text
  it has left; a target string is empty before each extraction in the source, so an
  extraction that fails leaves it empty.
\<close>

definition isspace :: "char \<Rightarrow> bool" where
  "isspace c \<longleftrightarrow> c = CHR '' '' \<or> c = CHR 0x09 \<or> c = CHR 0x0A \<or> c = CHR 0x0B
     \<or> c = CHR 0x0C \<or> c = CHR 0x0D"

definition extract_word :: "string \<Rightarrow> string \<times> string" where
  "extract_word iss =
     (let s1 = dropWhile isspace iss
      in (takeWhile (\<lambda>c. \<not> isspace c) s1, dropWhile (\<lambda>c. \<not> isspace c) s1))"

text \<open>\<open>send_line(cfd, str);\<close> as a statement: the result is not looked at.\<close>

definition reply :: "world \<Rightarrow> string \<Rightarrow> world" where
  "reply w str = w\<lparr>conn := snd (send_line (conn w) str)\<rparr>"

text \<open>
  One turn of the command loop of \<open>handle_client\<close>: the state after it and whether the
  loop goes on (\<open>continue\<close>, or the end of the body) or is left (\<open>break\<close>).
\<close>

definition command_step :: "world \<Rightarrow> bool \<times> world" where
  "command_step w =
     (case recv_line (conn w) of
        (None, s1) \<Rightarrow> (False, w\<lparr>conn := s1\<rparr>)
      | (Some line, s1) \<Rightarrow>
          (let w1 = w\<lparr>conn := s1\<rparr>;
               cmd = fst (extract_word line);
               iss = snd (extract_word line)
           in if cmd = ''LIST'' then
                (case list_files w1 of
                   (data, w2) \<Rightarrow> (True, reply (reply w2 ''OK'') data))
              else if cmd = ''GET'' then
                (let fname = fst (extract_word iss) in
                 if \<not> safe_filename fname then (True, reply w1 ''ERR BadName'')
                 else (let path = ROOT_DIR @ ''/'' @ fname in
                       case open_read w1 path of
                         (None, w2) \<Rightarrow> (True, reply w2 ''ERR NotFound'')
                       | (Some test, w2) \<Rightarrow> send_file_encrypted (reply w2 ''OK'') path))
              else if cmd = ''PUT'' then
                (let fname = fst (extract_word iss) in
                 if \<not> safe_filename fname then (True, reply w1 ''ERR BadName'')
                 else (let path = UPLOAD_DIR @ ''/'' @ fname
                       in recv_file_encrypted (reply w1 ''OK'') path))
              else if cmd = ''QUIT'' then (False, reply w1 ''BYE'')
              else (True, reply w1 ''ERR UnknownCmd'')))"

section \<open>What the loops read and leave untouched\<close>

lemma recv_all_0: "recv_all s 0 = (Some [], s)"
  by (subst recv_all.simps) simp

lemma recv_all_step:
  "0 < len \<Longrightarrow> recv s len = (r, got, s1) \<Longrightarrow>
   recv_all s len =
     (if r \<le> 0 then (None, s1)
      else (case recv_all s1 (len - nat r) of
              (None, s2) \<Rightarrow> (None, s2)
            | (Some rest, s2) \<Rightarrow> (Some (got @ rest), s2)))"
  by (subst recv_all.simps) simp

lemma send_all_Nil: "send_all s [] = (True, s)"
  by (subst send_all.simps) simp

lemma send_all_step:
  "data \<noteq> [] \<Longrightarrow> send s data = (r, s1) \<Longrightarrow>
   send_all s data = (if r \<le> 0 then (False, s1) else send_all s1 (drop (nat r) data))"
  by (subst send_all.simps) simp

lemma recv_shape:
  "recv s len = (r, got, s') \<Longrightarrow>
     tx s' = tx s \<and> tx_sched s' = tx_sched s \<and> length (rx s') \<le> length (rx s) \<and>
     (0 < r \<longrightarrow> rx s = got @ rx s' \<and> length got = nat r \<and> nat r \<le> len)"
  by (auto simp add: recv_def Let_def split: if_splits)

lemma recv_all_Some:
  "recv_all s n = (Some bytes, s') \<Longrightarrow>
     rx s = bytes @ rx s' \<and> length bytes = n \<and> tx s' = tx s \<and> tx_sched s' = tx_sched s"
proof (induction s n arbitrary: bytes s' rule: recv_all.induct)
  case (1 s len)
  show ?case
  proof (cases "len = 0")
    case True
    with "1.prems" show ?thesis by (simp add: recv_all_0)
  next
    case False
    obtain r got s1 where r: "recv s len = (r, got, s1)" by (cases "recv s len") auto
    note st = recv_all_step [OF _ r]
    have pos: "0 < r"
      using "1.prems" False by (cases "r \<le> 0") (simp_all add: st)
    obtain res s2 where r2: "recv_all s1 (len - nat r) = (res, s2)" by force
    obtain rest where
      rest: "res = Some rest" "s2 = s'" and b: "bytes = got @ rest"
      using "1.prems" False pos r2 by (cases res) (simp_all add: st)
    have sh: "rx s = got @ rx s1" "length got = nat r" "nat r \<le> len" "tx s1 = tx s" "tx_sched s1 = tx_sched s"
      using recv_shape [OF r] pos by auto
    have "rx s1 = rest @ rx s' \<and> length rest = len - nat r \<and> tx s' = tx s1 \<and> tx_sched s' = tx_sched s1"
      using "1.IH" [of r "(got, s1)" got s1 rest s'] False r pos r2 rest by simp
    then show ?thesis using sh b by simp
  qed
qed

lemma recv_all_frame:
  "recv_all s n = (res, s') \<Longrightarrow>
     length (rx s') \<le> length (rx s) \<and> tx s' = tx s \<and> tx_sched s' = tx_sched s"
proof (induction s n arbitrary: res s' rule: recv_all.induct)
  case (1 s len)
  show ?case
  proof (cases "len = 0")
    case True
    with "1.prems" show ?thesis by (simp add: recv_all_0)
  next
    case False
    obtain r got s1 where r: "recv s len = (r, got, s1)" by (cases "recv s len") auto
    note st = recv_all_step [OF _ r]
    have sh: "length (rx s1) \<le> length (rx s)" "tx s1 = tx s" "tx_sched s1 = tx_sched s"
      using recv_shape [OF r] by auto
    show ?thesis
    proof (cases "r \<le> 0")
      case True
      with "1.prems" False have "s' = s1" by (simp add: st)
      then show ?thesis using sh by simp
    next
      case neg: False
      obtain res1 s2 where r2: "recv_all s1 (len - nat r) = (res1, s2)" by force
      have "s' = s2"
        using "1.prems" False neg r2 by (cases res1) (simp_all add: st)
      moreover have "length (rx s2) \<le> length (rx s1) \<and> tx s2 = tx s1 \<and> tx_sched s2 = tx_sched s1"
        using "1.IH" [of r "(got, s1)" got s1 res1 s2] False r neg r2 by simp
      ultimately show ?thesis using sh by simp
    qed
  qed
qed

lemma recv_all_None:
  "recv_all s n = (None, s') \<Longrightarrow> \<exists>c. c < n \<and> c \<le> length (rx s) \<and> rx s' = drop c (rx s)"
proof (induction s n arbitrary: s' rule: recv_all.induct)
  case (1 s len)
  have pos: "0 < len" using "1.prems" by (cases "len = 0") (simp_all add: recv_all_0)
  obtain r got s1 where r: "recv s len = (r, got, s1)" by (cases "recv s len") auto
  note st = recv_all_step [OF pos r]
  show ?case
  proof (cases "r \<le> 0")
    case True
    then have "s' = s1" using "1.prems" by (simp add: st)
    moreover have "rx s1 = rx s"
      using r True by (auto simp add: recv_def Let_def split: if_splits)
    ultimately show ?thesis using pos by (intro exI [of _ 0]) simp
  next
    case neg: False
    obtain res1 s2 where r2: "recv_all s1 (len - nat r) = (res1, s2)" by force
    have n1: "res1 = None \<and> s' = s2"
      using "1.prems" neg r2 by (cases res1) (simp_all add: st)
    obtain c where c: "c < len - nat r" "c \<le> length (rx s1)" "rx s2 = drop c (rx s1)"
      using "1.IH" [of r "(got, s1)" got s1 s2] pos r neg r2 n1 by auto
    have sh: "rx s = got @ rx s1" "length got = nat r" "nat r \<le> len"
      using recv_shape [OF r] neg by auto
    show ?thesis
    proof (intro exI [of _ "nat r + c"] conjI)
      show "nat r + c < len" using c(1) by linarith
      show "nat r + c \<le> length (rx s)" using c(2) sh by simp
      show "rx s' = drop (nat r + c) (rx s)" using n1 c(3) sh by simp
    qed
  qed
qed

lemma send_shape:
  "send s data = (r, s') \<Longrightarrow> rx s' = rx s \<and> rx_sched s' = rx_sched s"
  by (auto simp add: send_def Let_def split: if_splits)

lemma send_all_frame:
  "send_all s data = (ok, s') \<Longrightarrow> rx s' = rx s \<and> rx_sched s' = rx_sched s"
proof (induction s data arbitrary: ok s' rule: send_all.induct)
  case (1 s data)
  show ?case
  proof (cases "data = []")
    case True
    with "1.prems" show ?thesis by (simp add: send_all_Nil)
  next
    case False
    obtain r s1 where r: "send s data = (r, s1)" by force
    note st = send_all_step [OF False r]
    show ?thesis
    proof (cases "r \<le> 0")
      case True
      with "1.prems" have "s' = s1" by (simp add: st)
      then show ?thesis using send_shape [OF r] by simp
    next
      case neg: False
      have "send_all s1 (drop (nat r) data) = (ok, s')"
        using "1.prems" neg by (simp add: st)
      then have "rx s' = rx s1 \<and> rx_sched s' = rx_sched s1"
        using "1.IH" [of r s1 ok s'] False r neg by simp
      then show ?thesis using send_shape [OF r] by simp
    qed
  qed
qed

lemma recv_line_Some:
  assumes "recv_line s = (Some line, s')"
  shows "\<exists>hdr. length hdr = 4 \<and> rx s = hdr @ line @ rx s'
           \<and> length line = unat (ntohl (load hdr :: u32))"
    and "tx s' = tx s" and "tx_sched s' = tx_sched s"
proof -
  obtain res s1 where r1: "recv_all s 4 = (res, s1)" by force
  obtain hdr where hdr: "res = Some hdr"
    using assms r1 by (cases res) (simp_all add: recv_line_def)
  note h = recv_all_Some [OF r1 [unfolded hdr]]
  let ?n = "ntohl (load hdr) :: u32"
  show "\<exists>hdr. length hdr = 4 \<and> rx s = hdr @ line @ rx s'
           \<and> length line = unat (ntohl (load hdr :: u32))"
  proof (cases "?n = 0")
    case True
    then have "line = []" "s' = s1"
      using assms r1 hdr by (simp_all add: recv_line_def)
    then show ?thesis using h True by auto
  next
    case False
    obtain res2 s2 where r2: "recv_all s1 (unat ?n) = (res2, s2)" by force
    have "res2 = Some line" "s2 = s'"
      using assms r1 hdr False r2 by (cases res2; simp add: recv_line_def)+
    then show ?thesis using h recv_all_Some [of s1 "unat ?n" line s'] r2 by auto
  qed
  show "tx s' = tx s" "tx_sched s' = tx_sched s"
  proof -
    have "tx s' = tx s \<and> tx_sched s' = tx_sched s"
    proof (cases "?n = 0")
      case True
      then have "s' = s1" using assms r1 hdr by (simp add: recv_line_def)
      then show ?thesis using h by simp
    next
      case False
      obtain res2 s2 where r2: "recv_all s1 (unat ?n) = (res2, s2)" by force
      have "s2 = s'"
        using assms r1 hdr False r2 by (cases res2; simp add: recv_line_def)
      then show ?thesis using h recv_all_frame [OF r2] by simp
    qed
    then show "tx s' = tx s" "tx_sched s' = tx_sched s" by simp_all
  qed
qed

lemma recv_line_shorter:
  "recv_line s = (Some line, s') \<Longrightarrow> length (rx s') < length (rx s)"
  using recv_line_Some(1) [of s line s'] by auto

lemma send_line_frame:
  "send_line s str = (ok, s') \<Longrightarrow> rx s' = rx s \<and> rx_sched s' = rx_sched s"
proof -
  assume a: "send_line s str = (ok, s')"
  obtain ok1 s1 where r1: "send_all s (store32 (htonl (of_nat (length str)))) = (ok1, s1)" by force
  obtain ok2 s2 where r2: "send_all s1 str = (ok2, s2)" by force
  have "s' = s1 \<or> s' = s2"
    using a r1 r2 by (cases ok1; cases ok2; simp add: send_line_def)
  then show ?thesis
    using send_all_frame [OF r1] send_all_frame [OF r2] by auto
qed

lemma reply_rx: "rx (conn (reply w str)) = rx (conn w)"
  using send_line_frame [of "conn w" str] by (cases "send_line (conn w) str") (simp add: reply_def)

lemma send_chunks_stop: "send_chunks s buf [] good = (True, s)" "send_chunks s buf src False = (True, s)"
  by (subst send_chunks.simps, simp)+

lemma BUF_SIZE_pos: "0 < BUF_SIZE"
  by (simp add: BUF_SIZE_def)

lemma send_chunks_step:
  "src \<noteq> [] \<Longrightarrow>
   send_chunks s buf src True =
     (let got = min BUF_SIZE (length src);
          buf2 = xor_in_place (take got src @ drop got buf) got
      in case send_all s (take got buf2) of
           (False, s1) \<Rightarrow> (False, s1)
         | (True, s1) \<Rightarrow> send_chunks s1 buf2 (drop got src) (BUF_SIZE \<le> length src))"
proof -
  assume "src \<noteq> []"
  then have nz: "min BUF_SIZE (length src) \<noteq> 0"
    using BUF_SIZE_pos by (cases src) auto
  show ?thesis
    by (subst send_chunks.simps) (simp add: nz Let_def split: prod.splits bool.splits)
qed

lemma send_chunks_frame:
  "send_chunks s buf src good = (ok, s') \<Longrightarrow> rx s' = rx s \<and> rx_sched s' = rx_sched s"
proof (induction s buf src good arbitrary: ok s' rule: send_chunks.induct)
  case (1 s buf src good)
  show ?case
  proof (cases "good \<and> src \<noteq> []")
    case False
    then have "send_chunks s buf src good = (True, s)"
      by (cases good) (auto simp add: send_chunks_stop)
    with "1.prems" show ?thesis by simp
  next
    case True
    then have g: "good = True" and ne: "src \<noteq> []" by simp_all
    let ?got = "min BUF_SIZE (length src)"
    let ?buf2 = "xor_in_place (take ?got src @ drop ?got buf) ?got"
    have gp: "\<not> ?got \<le> 0" using ne by (simp add: BUF_SIZE_pos)
    obtain ok1 s1 where r1: "send_all s (take ?got ?buf2) = (ok1, s1)" by force
    note st = send_chunks_step [OF ne, of s buf, unfolded Let_def]
    show ?thesis
    proof (cases ok1)
      case False
      then have "s' = s1" using "1.prems" g r1 by (simp add: st)
      then show ?thesis using send_all_frame [OF r1] by simp
    next
      case ok: True
      have "send_chunks s1 ?buf2 (drop ?got src) (BUF_SIZE \<le> length src) = (ok, s')"
        using "1.prems" g r1 ok by (simp add: st)
      then have "rx s' = rx s1 \<and> rx_sched s' = rx_sched s1"
        using "1.IH" [of ?got "take ?got src @ drop ?got buf" "BUF_SIZE \<le> length src" ?buf2 ok1 s1 ok s']
          g gp r1 ok by simp
      then show ?thesis using send_all_frame [OF r1] by simp
    qed
  qed
qed

lemma send_file_encrypted_rx:
  "send_file_encrypted w path = (ok, w') \<Longrightarrow> rx (conn w') = rx (conn w)"
proof -
  assume a: "send_file_encrypted w path = (ok, w')"
  show ?thesis
  proof (cases "files w (c_str path)")
    case None
    then show ?thesis using a by (auto simp add: send_file_encrypted_def open_read_def)
  next
    case (Some node)
    obtain ok1 s1 where r1:
      "send_all (conn w) (store64 (host_to_be64 (tell_end node))) = (ok1, s1)" by force
    obtain ok2 s2 where r2:
      "send_chunks s1 (replicate BUF_SIZE (CHR 0x00)) (stream_bytes node) True = (ok2, s2)"
      by force
    have "conn w' = s1 \<or> conn w' = s2"
      using a Some r1 r2
      by (cases ok1) (auto simp add: send_file_encrypted_def open_read_def Let_def)
    then show ?thesis using send_all_frame [OF r1] send_chunks_frame [OF r2] by auto
  qed
qed

lemma recv_chunks_stop: "recv_chunks w path buf 0 = (True, w)"
  by (subst recv_chunks.simps) simp

lemma recv_chunks_step:
  "0 < left \<Longrightarrow>
   recv_chunks w path buf left =
     (let chunk = min BUF_SIZE (unat left) in
      case recv_all (conn w) chunk of
        (None, s1) \<Rightarrow> (False, w\<lparr>conn := s1\<rparr>)
      | (Some bytes, s1) \<Rightarrow>
          recv_chunks
            (write_file (w\<lparr>conn := s1\<rparr>) path
               (take chunk (xor_in_place (bytes @ drop chunk buf) chunk)))
            path (xor_in_place (bytes @ drop chunk buf) chunk) (left - of_nat chunk))"
  by (subst recv_chunks.simps) (simp add: Let_def split: prod.splits option.splits)

lemma conn_write_file [simp]: "conn (write_file w path bytes) = conn w"
  by (simp add: write_file_def)

lemma recv_chunks_rx:
  "recv_chunks w path buf left = (ok, w') \<Longrightarrow> length (rx (conn w')) \<le> length (rx (conn w))"
proof (induction w path buf left arbitrary: ok w' rule: recv_chunks.induct)
  case (1 w path buf left)
  show ?case
  proof (cases "0 < left")
    case False
    then have "left = 0" by (simp add: word_greater_zero_iff)
    with "1.prems" show ?thesis by (simp add: recv_chunks_stop)
  next
    case True
    let ?chunk = "min BUF_SIZE (unat left)"
    obtain res s1 where r1: "recv_all (conn w) ?chunk = (res, s1)" by force
    note st = recv_chunks_step [OF True, of w path buf, unfolded Let_def]
    note fr = recv_all_frame [OF r1]
    show ?thesis
    proof (cases res)
      case None
      then have "w' = w\<lparr>conn := s1\<rparr>" using "1.prems" r1 by (simp add: st)
      then show ?thesis using fr by simp
    next
      case (Some bytes)
      let ?buf2 = "xor_in_place (bytes @ drop ?chunk buf) ?chunk"
      let ?w1 = "write_file (w\<lparr>conn := s1\<rparr>) path (take ?chunk ?buf2)"
      have "recv_chunks ?w1 path ?buf2 (left - of_nat ?chunk) = (ok, w')"
        using "1.prems" r1 Some by (simp add: st)
      then have "length (rx (conn w')) \<le> length (rx (conn ?w1))"
        using "1.IH" [of ?chunk "Some bytes" s1 bytes "bytes @ drop ?chunk buf" ?buf2 ?w1 ok w']
          True r1 Some by simp
      then show ?thesis using fr by simp
    qed
  qed
qed

lemma recv_file_encrypted_rx:
  "recv_file_encrypted w path = (ok, w') \<Longrightarrow> length (rx (conn w')) \<le> length (rx (conn w))"
proof -
  assume a: "recv_file_encrypted w path = (ok, w')"
  obtain res s1 where r1: "recv_all (conn w) 8 = (res, s1)" by force
  note fr = recv_all_frame [OF r1]
  show ?thesis
  proof (cases res)
    case None
    then show ?thesis using a r1 fr by (auto simp add: recv_file_encrypted_def)
  next
    case (Some hdr)
    show ?thesis
    proof (cases "writable w (c_str path)")
      case False
      then show ?thesis using a r1 Some fr by (auto simp add: recv_file_encrypted_def Let_def)
    next
      case True
      let ?w1 = "w\<lparr>conn := s1, fs_log := fs_log w @ [OpenWrite (c_str path)]\<rparr>"
      have "recv_chunks (?w1\<lparr>files := (files ?w1)(c_str path \<mapsto> Regular [])\<rparr>) (c_str path)
              (replicate BUF_SIZE (CHR 0x00)) (be64_to_host (load hdr)) = (ok, w')"
        using a r1 Some True by (simp add: recv_file_encrypted_def Let_def)
      from recv_chunks_rx [OF this] show ?thesis using fr by simp
    qed
  qed
qed

lemma command_step_shorter:
  "command_step w = (True, w') \<Longrightarrow> length (rx (conn w')) < length (rx (conn w))"
proof -
  assume a: "command_step w = (True, w')"
  obtain res s1 where r1: "recv_line (conn w) = (res, s1)" by force
  obtain line where line: "res = Some line"
    using a r1 by (cases res) (simp_all add: command_step_def)
  have sh: "length (rx s1) < length (rx (conn w))"
    using recv_line_shorter r1 line by simp
  let ?w1 = "w\<lparr>conn := s1\<rparr>"
  have "length (rx (conn w')) \<le> length (rx s1)"
    using a r1 line
      send_file_encrypted_rx [of "reply (?w1\<lparr>fs_log := fs_log ?w1 @ [OpenRead (c_str (ROOT_DIR @ ''/'' @ fst (extract_word (snd (extract_word line)))))]\<rparr>) ''OK''" _ True w']
      recv_file_encrypted_rx [of "reply ?w1 ''OK''" _ True w']
    by (auto simp add: command_step_def Let_def reply_rx list_files_def open_read_def
         split: if_splits prod.splits option.splits)
  then show ?thesis using sh by simp
qed

section \<open>Session protocol\<close>

text \<open>
  The command loop \<open>while (true) { ... }\<close>. Every turn that goes on has read a frame, so
  the loop ends at the latest when the input is used up.
\<close>

function command_loop :: "world \<Rightarrow> world" where
  "command_loop w = (case command_step w of (True, w') \<Rightarrow> command_loop w' | (False, w') \<Rightarrow> w')"
  by pat_completeness auto
termination
  by (relation "measure (\<lambda>w. length (rx (conn w)))") (auto simp add: command_step_shorter)

declare command_loop.simps [simp del]

definition handle_client :: "world \<Rightarrow> world" where
  "handle_client w =
     (case recv_line (conn w) of
        (None, s1) \<Rightarrow> w\<lparr>conn := s1, closed := True\<rparr>
      | (Some line, s1) \<Rightarrow>
          (let w1 = w\<lparr>conn := s1\<rparr>;
               cmd = fst (extract_word line);
               iss1 = snd (extract_word line);
               user = fst (extract_word iss1);
               iss2 = snd (extract_word iss1);
               pass = fst (extract_word iss2)
           in if cmd \<noteq> ''AUTH'' \<or> user = [] \<or> pass = []
              then (reply w1 ''AUTH_FAIL'')\<lparr>closed := True\<rparr>
              else (case check_auth w1 user pass of
                      (False, w2) \<Rightarrow> (reply w2 ''AUTH_FAIL'')\<lparr>closed := True\<rparr>
                    | (True, w2) \<Rightarrow> (command_loop (reply w2 ''AUTH_OK''))\<lparr>closed := True\<rparr>)))"

section \<open>Reference notions\<close>

text \<open>
  The credential store as the specification describes it: the lines that have a colon,
  each split at its first colon into a username and a password.
\<close>

definition store_entries :: "string list \<Rightarrow> (string \<times> string) list" where
  "store_entries ls =
     map (\<lambda>l. (takeWhile (\<lambda>c. c \<noteq> CHR '':'') l, tl (dropWhile (\<lambda>c. c \<noteq> CHR '':'') l)))
       (filter (\<lambda>l. CHR '':'' \<in> set l) ls)"

text \<open>A control frame: the four-byte big-endian length, then the bytes.\<close>

definition frame :: "string \<Rightarrow> char list" where
  "frame str = be_bytes 4 (length str mod 2 ^ 32) @ str"

text \<open>The credential check as a property of the file system alone.\<close>

definition credentials_ok :: "(string \<Rightarrow> fnode option) \<Rightarrow> string \<Rightarrow> string \<Rightarrow> bool" where
  "credentials_ok fs user pass =
     (case fs USERS_FILE of
        None \<Rightarrow> False
      | Some node \<Rightarrow> (user, pass) \<in> set (store_entries (getlines [] (stream_bytes node))))"

text \<open>The entries a listing shows: all but \<open>.\<close>, \<open>..\<close> and \<open>uploads\<close>.\<close>

definition listed :: "string list \<Rightarrow> string list" where
  "listed entries = filter (\<lambda>n. n \<notin> {''.'', ''..'', ''uploads''}) entries"

text \<open>
  How many payload bytes of a bulk transfer of \<open>left\<close> bytes arrive in chunks that are
  received in full, chunk after chunk of at most \<open>BUF_SIZE\<close> bytes, before a chunk is cut
  short by a failing read or by the end of the stream.
\<close>

function whole_chunks :: "sock \<Rightarrow> nat \<Rightarrow> nat" where
  "whole_chunks s left =
     (if left = 0 then 0
      else (let chunk = min BUF_SIZE left in
            case recv_all s chunk of
              (None, s1) \<Rightarrow> 0
            | (Some bytes, s1) \<Rightarrow> chunk + whole_chunks s1 (left - chunk)))"
  by pat_completeness auto
termination
  by (relation "measure (\<lambda>(s, left). left)") (auto simp add: BUF_SIZE_pos)

declare whole_chunks.simps [simp del]

text \<open>
  A server at the start of a connection: the client's bytes are all in flight, nothing
  is sent yet, every call transfers all it is asked for, and every file can be written.
\<close>

definition sock_with :: "char list \<Rightarrow> sock" where
  "sock_with input = \<lparr>rx = input, rx_sched = [], tx = [], tx_sched = []\<rparr>"

definition server_with :: "char list \<Rightarrow> (string \<Rightarrow> fnode option) \<Rightarrow> string list option \<Rightarrow> world" where
  "server_with input fs entries =
     \<lparr>conn = sock_with input, files = fs, writable = (\<lambda>p. True),
      dirs = (\<lambda>p. if p = ROOT_DIR then entries else None), fs_log = [], closed = False\<rparr>"

section \<open>Proof devices\<close>

text \<open>
  What is left of a transfer schedule none of whose calls fails, after \<open>n\<close> bytes went
  through a loop of \<open>send\<close> or \<open>recv\<close> calls.
\<close>

fun consume :: "nat list \<Rightarrow> nat \<Rightarrow> nat list" where
  "consume ks 0 = ks"
| "consume [] (Suc n) = []"
| "consume (k # ks) (Suc n) = consume ks (Suc n - k)"

lemma consume_Nil [simp]: "consume [] n = []"
  by (cases n) simp_all

lemma set_consume: "set (consume ks n) \<subseteq> set ks"
  by (induction ks n rule: consume.induct) auto

section \<open>Transfers on a socket whose calls do not fail\<close>

lemma send_all_ok:
  "0 \<notin> set (tx_sched s) \<Longrightarrow>
   send_all s data = (True, s\<lparr>tx := tx s @ data, tx_sched := consume (tx_sched s) (length data)\<rparr>)"
proof (induction s data rule: send_all.induct)
  case (1 s data)
  show ?case
  proof (cases "data = []")
    case True
    then show ?thesis by (subst send_all.simps) simp
  next
    case False
    define k where "k = (case tx_sched s of [] \<Rightarrow> length data | k # _ \<Rightarrow> k)"
    define n where "n = min (length data) k"
    define s' where "s' = s\<lparr>tx_sched := tl (tx_sched s), tx := tx s @ take n data\<rparr>"
    have k: "k \<noteq> 0" using "1.prems" False by (auto simp: k_def split: list.splits)
    then have n: "0 < n" using False by (simp add: n_def)
    have snd: "send s data = (int n, s')"
      using k by (simp add: send_def Let_def k_def n_def s'_def)
    have h': "0 \<notin> set (tx_sched s')"
      using "1.prems" by (cases "tx_sched s") (auto simp: s'_def)
    have "send_all s data = send_all s' (drop n data)"
      using False snd n by (subst send_all.simps) simp
    also have "\<dots> = (True, s'\<lparr>tx := tx s' @ drop n data, tx_sched := consume (tx_sched s') (length data - n)\<rparr>)"
      using "1.IH" [of "int n" s'] False snd n h' by simp
    also have "consume (tx_sched s') (length data - n) = consume (tx_sched s) (length data)"
    proof (cases "tx_sched s")
      case Nil
      then show ?thesis by (simp add: s'_def)
    next
      case (Cons a as)
      obtain m where m: "length data = Suc m" using False by (cases data) auto
      have "Suc m - min (Suc m) a = Suc m - a" by simp
      then show ?thesis using Cons m by (simp add: s'_def n_def k_def)
    qed
    finally show ?thesis by (simp add: s'_def)
  qed
qed

lemma recv_all_ok:
  "0 \<notin> set (rx_sched s) \<Longrightarrow> n \<le> length (rx s) \<Longrightarrow>
   recv_all s n = (Some (take n (rx s)), s\<lparr>rx := drop n (rx s), rx_sched := consume (rx_sched s) n\<rparr>)"
proof (induction s n rule: recv_all.induct)
  case (1 s len)
  show ?case
  proof (cases "len = 0")
    case True
    then show ?thesis by (subst recv_all.simps) simp
  next
    case False
    define k where "k = (case rx_sched s of [] \<Rightarrow> len | k # _ \<Rightarrow> k)"
    define n where "n = min len (min k (length (rx s)))"
    define s' where "s' = s\<lparr>rx_sched := tl (rx_sched s), rx := drop n (rx s)\<rparr>"
    have k: "k \<noteq> 0" using "1.prems" False by (auto simp: k_def split: list.splits)
    then have n: "0 < n" "n \<le> len" using False "1.prems" by (auto simp add: n_def)
    have rcv: "recv s len = (int n, take n (rx s), s')"
      using k by (simp add: recv_def Let_def k_def n_def s'_def)
    have h': "0 \<notin> set (rx_sched s')"
      using "1.prems" by (cases "rx_sched s") (auto simp: s'_def)
    have l': "len - n \<le> length (rx s')"
      using "1.prems" by (simp add: s'_def)
    have sch: "consume (rx_sched s') (len - n) = consume (rx_sched s) len"
    proof (cases "rx_sched s")
      case Nil
      then show ?thesis by (simp add: s'_def)
    next
      case (Cons a as)
      obtain m where m: "len = Suc m" using False by (cases len) auto
      have "Suc m - min (Suc m) (min a (length (rx s))) = Suc m - a"
        using "1.prems" m by simp
      then show ?thesis using Cons m by (simp add: s'_def n_def k_def)
    qed
    have "recv_all s' (len - n)
        = (Some (take (len - n) (rx s')), s'\<lparr>rx := drop (len - n) (rx s'), rx_sched := consume (rx_sched s') (len - n)\<rparr>)"
      using "1.IH" [of "int n" "(take n (rx s), s')" "take n (rx s)" s'] False rcv n h' l' by simp
    moreover have "take n (rx s) @ take (len - n) (rx s') = take len (rx s)"
      using n by (simp add: s'_def take_add [symmetric])
    ultimately show ?thesis
      using False rcv n sch by (subst recv_all.simps) (simp add: s'_def)
  qed
qed

section \<open>Properties of the transform codec\<close>

lemma xor_char_involution: "xor_char (xor_char c) = c"
proof -
  let ?a = "of_char c :: int"
  have a: "take_bit 8 ?a = ?a"
    by (simp add: take_bit_eq_mod)
  have "take_bit 8 (take_bit 8 (?a XOR 90) XOR 90)
      = take_bit 8 ?a XOR (take_bit 8 90 XOR take_bit 8 90)"
    by (simp only: take_bit_xor take_bit_take_bit min.idem xor.assoc)
  also have "\<dots> = ?a"
    by (simp add: a)
  finally show ?thesis
    unfolding xor_char_def XOR_KEY_def
    by (simp add: char_of_eq_iff take_bit_eq_mod)
qed

lemma xor_loop_eq:
  "i \<le> n \<Longrightarrow> n \<le> length buf \<Longrightarrow>
   xor_loop buf i n = take i buf @ map xor_char (take (n - i) (drop i buf)) @ drop n buf"
proof (induction buf i n rule: xor_loop.induct)
  case (1 buf i n)
  show ?case
  proof (cases "i < n")
    case True
    let ?b = "buf[i := xor_char (buf ! i)]"
    have il: "i < length buf" using True "1.prems" by simp
    have "xor_loop buf i n = xor_loop ?b (Suc i) n"
      using True by (subst xor_loop.simps) simp
    also have "\<dots> = take (Suc i) ?b @ map xor_char (take (n - Suc i) (drop (Suc i) ?b)) @ drop n ?b"
      using "1.IH" [OF True] True "1.prems" by simp
    also have "take (Suc i) ?b = take i buf @ [xor_char (buf ! i)]"
      using il by (simp add: take_Suc_conv_app_nth)
    also have "drop (Suc i) ?b = drop (Suc i) buf" by simp
    also have "drop n ?b = drop n buf" using True by simp
    also have "(take i buf @ [xor_char (buf ! i)]) @ map xor_char (take (n - Suc i) (drop (Suc i) buf)) @ drop n buf
      = take i buf @ map xor_char (take (n - i) (drop i buf)) @ drop n buf"
    proof -
      have "drop i buf = buf ! i # drop (Suc i) buf" using il by (simp add: Cons_nth_drop_Suc)
      moreover have "n - i = Suc (n - Suc i)" using True by simp
      ultimately show ?thesis by simp
    qed
    finally show ?thesis by simp
  next
    case False
    then show ?thesis using "1.prems" by (subst xor_loop.simps) simp
  qed
qed

lemma xor_in_place_eq:
  "n \<le> length buf \<Longrightarrow> xor_in_place buf n = map xor_char (take n buf) @ drop n buf"
  by (simp add: xor_in_place_def xor_loop_eq)

text \<open>
  Claim C3. The byte transform is self-inverse: for every buffer \<open>b\<close> and every count
  \<open>n\<close> not exceeding the length of \<open>b\<close>, applying \<open>xor_in_place\<close> with count \<open>n\<close> twice
  gives \<open>b\<close> back.
\<close>

theorem xor_in_place_self_inverse:
  "n \<le> length b \<Longrightarrow> xor_in_place (xor_in_place b n) n = b"
  by (simp add: xor_in_place_eq xor_char_involution comp_def)

theorem xor_in_place_self_inverse_witness:
  "(2::nat) \<le> length ''abc'' \<and> xor_in_place (xor_in_place ''abc'' 2) 2 = ''abc''"
  using xor_in_place_self_inverse [of 2 "''abc''"] by simp

section \<open>Byte order and object representation\<close>

lemma mask_consts:
  "(0xFF000000 :: u32) = push_bit 24 (mask 8)" "(0x00FF0000 :: u32) = push_bit 16 (mask 8)"
  "(0x0000FF00 :: u32) = push_bit 8 (mask 8)" "(0x000000FF :: u32) = mask 8"
  "(0xFFFFFFFF :: u64) = mask 32"
  by (simp_all add: mask_eq_exp_minus_1)

lemma char_of_eq_take_bit: "char_of (a::nat) = char_of b \<longleftrightarrow> take_bit 8 a = take_bit 8 b"
  by (simp add: take_bit_eq_mod)

lemma byte_at_eq_iff:
  "byte_at v i = byte_at w j \<longleftrightarrow> (\<forall>n<8. bit v (8 * i + n) = bit w (8 * j + n))"
  unfolding byte_at_def char_of_eq_take_bit
  by (auto simp add: bit_eq_iff bit_take_bit_iff bit_unsigned_iff bit_drop_bit_eq possible_bit_def)

lemma htonl_bytes:
  "byte_at (htonl x) 0 = byte_at x 3" "byte_at (htonl x) (Suc 0) = byte_at x 2"
  "byte_at (htonl x) 2 = byte_at x (Suc 0)" "byte_at (htonl x) 3 = byte_at x 0"
  unfolding byte_at_eq_iff htonl_def mask_consts
  by (simp_all add: bit_simps)

lemma store32_htonl: "store32 (htonl x) = rev (store32 x)"
  by (simp add: store32_def htonl_bytes)

lemma of_char_byte_at:
  "(of_char (byte_at w i) :: 'b::len word) = of_nat (take_bit 8 (unat (drop_bit (8 * i) w)))"
proof -
  have "(of_char (byte_at w i) :: 'b word) = of_nat (of_char (byte_at w i))"
    by (rule of_nat_of_char [symmetric])
  also have "(of_char (byte_at w i) :: nat) = take_bit 8 (unat (drop_bit (8 * i) w))"
    by (simp add: byte_at_def take_bit_eq_mod)
  finally show ?thesis .
qed

lemma bit_of_char_byte_at:
  "bit (of_char (byte_at w i) :: 'b::len word) n \<longleftrightarrow> n < 8 \<and> n < LENGTH('b) \<and> bit w (8 * i + n)"
  unfolding of_char_byte_at
  by (auto simp add: bit_simps)

lemma load_store32: "load (store32 w) = w"
proof (rule bit_eqI)
  fix n assume "possible_bit TYPE(32 word) n"
  then have n: "n < 32" by (simp add: possible_bit_def)
  then consider "n < 8" | "8 \<le> n" "n < 16" | "16 \<le> n" "n < 24" | "24 \<le> n" "n < 32" by linarith
  then show "bit (load (store32 w) :: 32 word) n = bit w n"
    by cases (auto simp add: store32_def bit_simps bit_of_char_byte_at)
qed

lemma load_store64: "load (store64 w) = w"
proof (rule bit_eqI)
  fix n assume "possible_bit TYPE(64 word) n"
  then have n: "n < 64" by (simp add: possible_bit_def)
  then consider "n < 8" | "8 \<le> n" "n < 16" | "16 \<le> n" "n < 24" | "24 \<le> n" "n < 32"
    | "32 \<le> n" "n < 40" | "40 \<le> n" "n < 48" | "48 \<le> n" "n < 56" | "56 \<le> n" "n < 64" by linarith
  then show "bit (load (store64 w) :: 64 word) n = bit w n"
    by cases (auto simp add: store64_def bit_simps bit_of_char_byte_at)
qed

lemma ntohl_htonl: "ntohl (htonl x) = x"
proof -
  have "load (store32 (htonl (htonl x))) = (load (store32 x) :: u32)"
    by (simp add: store32_htonl)
  then show ?thesis by (simp add: load_store32 ntohl_def)
qed

lemma bit_u32_high:
  "bit (x :: u32) (32 + n) = False" "bit (x :: u32) (40 + n) = False"
  "bit (x :: u32) (48 + n) = False" "bit (x :: u32) (56 + n) = False"
  using bit_imp_le_length [of x] by fastforce+

lemma halves_hi: "ucast (drop_bit 32 (push_bit 32 (ucast a :: u64) OR ucast (b :: u32))) = (a :: u32)"
  by (rule bit_eqI) (auto simp add: bit_simps bit_u32_high)

lemma halves_lo: "ucast ((push_bit 32 (ucast (a :: u32) :: u64) OR ucast b) AND mask 32) = (b :: u32)"
  by (rule bit_eqI) (auto simp add: bit_simps)

lemma halves_join:
  "push_bit 32 (ucast (ucast (drop_bit 32 w) :: u32) :: u64) OR ucast (ucast (w AND mask 32) :: u32) = w"
  by (rule bit_eqI) (auto simp add: bit_simps)

lemma be64_to_host_inverse: "be64_to_host (host_to_be64 w) = w"
  unfolding be64_to_host_def host_to_be64_def Let_def mask_consts
  by (simp only: halves_hi halves_lo ntohl_htonl halves_join)

lemma bit_htonl_byte:
  assumes "n < 8"
  shows "bit (htonl x) n = bit x (24 + n)"
    and "bit (htonl x) (8 + n) = bit x (16 + n)"
    and "bit (htonl x) (16 + n) = bit x (8 + n)"
    and "bit (htonl x) (24 + n) = bit x n"
  using assms htonl_bytes [of x] unfolding byte_at_eq_iff by simp_all

lemma store64_host_to_be64: "store64 (host_to_be64 w) = rev (store64 w)"
  unfolding store64_def host_to_be64_def Let_def mask_consts
  by (simp add: byte_at_eq_iff) (simp add: bit_simps bit_htonl_byte bit_u32_high)

lemma byte_at_div: "byte_at w i = char_of (unat w div 256 ^ i)"
proof -
  have "(256::nat) ^ i = 2 ^ (8 * i)" by (simp add: power_mult)
  then show ?thesis
    unfolding byte_at_def unat_drop_bit_eq by (simp only: drop_bit_eq_div)
qed

lemma rev_upt_4: "rev [0..<4] = [3, 2, 1, 0 :: nat]"
  by code_simp

lemma rev_upt_8: "rev [0..<8] = [7, 6, 5, 4, 3, 2, 1, 0 :: nat]"
  by code_simp

lemma rev_store32: "rev (store32 w) = be_bytes 4 (unat w)"
  by (simp add: store32_def byte_at_div be_bytes_def rev_upt_4)

lemma rev_store64: "rev (store64 w) = be_bytes 8 (unat w)"
  by (simp add: store64_def byte_at_div be_bytes_def rev_upt_8)

lemma length_be_bytes [simp]: "length (be_bytes k n) = k"
  by (simp add: be_bytes_def)

section \<open>Framing on a socket whose calls do not fail\<close>

lemma consume_ok: "0 \<notin> set ks \<Longrightarrow> 0 \<notin> set (consume ks n)"
  using set_consume [of ks n] by auto

lemma wire_header32: "store32 (htonl (of_nat n)) = be_bytes 4 (n mod 2 ^ 32)"
  by (simp add: store32_htonl rev_store32 unat_of_nat)

lemma wire_header64: "store64 (host_to_be64 (of_nat n)) = be_bytes 8 (n mod 2 ^ 64)"
  by (simp add: store64_host_to_be64 rev_store64 unat_of_nat)

lemma read_header32: "n < 2 ^ 32 \<Longrightarrow> ntohl (load (be_bytes 4 n)) = (of_nat n :: u32)"
proof -
  assume "n < 2 ^ 32"
  then have "be_bytes 4 n = store32 (htonl (of_nat n))"
    by (simp add: wire_header32)
  then show ?thesis
    by (simp only: load_store32 ntohl_htonl)
qed

lemma read_header64: "n < 2 ^ 64 \<Longrightarrow> be64_to_host (load (be_bytes 8 n)) = (of_nat n :: u64)"
proof -
  assume "n < 2 ^ 64"
  then have "be_bytes 8 n = store64 (host_to_be64 (of_nat n))"
    by (simp add: wire_header64)
  then show ?thesis
    by (simp only: load_store64 be64_to_host_inverse)
qed

lemma send_line_ok:
  assumes "0 \<notin> set (tx_sched s)"
  shows "send_line s str =
           (True, s\<lparr>tx := tx s @ be_bytes 4 (length str mod 2 ^ 32) @ str,
                     tx_sched := consume (consume (tx_sched s) 4) (length str)\<rparr>)"
proof -
  define hdr where "hdr = be_bytes 4 (length str mod 2 ^ 32)"
  let ?s1 = "s\<lparr>tx := tx s @ hdr, tx_sched := consume (tx_sched s) 4\<rparr>"
  have w: "store32 (htonl (of_nat (length str))) = hdr"
    by (simp only: hdr_def wire_header32)
  have l: "length hdr = 4" by (simp add: hdr_def)
  have 1: "send_all s hdr = (True, ?s1)"
    using send_all_ok [OF assms, of hdr] by (simp add: l)
  have "0 \<notin> set (tx_sched ?s1)" using assms by (simp add: consume_ok)
  from send_all_ok [OF this, of str]
  have 2: "send_all ?s1 str
      = (True, s\<lparr>tx := tx s @ hdr @ str, tx_sched := consume (consume (tx_sched s) 4) (length str)\<rparr>)"
    by simp
  have "send_line s str
      = (True, s\<lparr>tx := tx s @ hdr @ str, tx_sched := consume (consume (tx_sched s) 4) (length str)\<rparr>)"
    by (simp add: send_line_def w 1 2)
  then show ?thesis by (simp only: hdr_def)
qed

lemma recv_line_ok:
  assumes h: "0 \<notin> set (rx_sched s)" and rx: "rx s = be_bytes 4 n @ rest"
    and n: "n < 2 ^ 32" "n \<le> length rest"
  shows "recv_line s =
           (Some (take n rest),
            s\<lparr>rx := drop n rest, rx_sched := consume (consume (rx_sched s) 4) n\<rparr>)"
proof -
  define hdr where "hdr = be_bytes 4 n"
  let ?s1 = "s\<lparr>rx := rest, rx_sched := consume (rx_sched s) 4\<rparr>"
  have l: "length hdr = 4" by (simp add: hdr_def)
  have 1: "recv_all s 4 = (Some hdr, ?s1)"
    using recv_all_ok [OF h, of 4] l by (simp add: rx flip: hdr_def)
  have w: "ntohl (load hdr) = (of_nat n :: u32)"
    unfolding hdr_def using n(1) by (rule read_header32)
  have u: "unat (of_nat n :: u32) = n" using n(1) by (simp add: unat_of_nat)
  show ?thesis
  proof (cases "n = 0")
    case True
    then show ?thesis by (simp add: recv_line_def 1 w)
  next
    case False
    then have nz: "(of_nat n :: u32) \<noteq> 0" using u by (metis unat_0)
    have "0 \<notin> set (rx_sched ?s1)" using h by (simp add: consume_ok)
    from recv_all_ok [OF this, of n]
    have 2: "recv_all ?s1 n
      = (Some (take n rest), s\<lparr>rx := drop n rest, rx_sched := consume (consume (rx_sched s) 4) n\<rparr>)"
      using n(2) by simp
    show ?thesis using nz by (simp add: recv_line_def 1 w u 2)
  qed
qed

lemma loopback_recv_line:
  assumes tx: "0 \<notin> set (tx_sched s)" and rx: "0 \<notin> set (rx_sched r)"
    and wire: "rx r = drop (length (tx s)) (tx (snd (send_line s b))) @ rest"
  shows "fst (recv_line r) = Some (take (length b mod 2 ^ 32) b)"
    and "length b < 2 ^ 32 \<Longrightarrow> rx (snd (recv_line r)) = rest"
proof -
  define n where "n = length b mod 2 ^ 32"
  have le: "n \<le> length b" "n < 2 ^ 32" by (simp_all add: n_def)
  have "rx r = be_bytes 4 n @ (b @ rest)"
    using wire by (simp add: send_line_ok [OF tx] n_def)
  from recv_line_ok [OF rx this le(2)] le(1)
  have *: "recv_line r = (Some (take n b), r\<lparr>rx := drop n b @ rest, rx_sched := consume (consume (rx_sched r) 4) n\<rparr>)"
    by simp
  show "fst (recv_line r) = Some (take (length b mod 2 ^ 32) b)"
    using * by (simp add: n_def)
  show "rx (snd (recv_line r)) = rest" if "length b < 2 ^ 32"
    using * that by (simp add: n_def)
qed

text \<open>
  Claim C2, as amended. The claim holds for byte sequences shorter than \<open>2 ^ 32\<close> bytes:
  for every such \<open>b\<close>, the empty one included, and however the kernel splits the
  transfers, \<open>send_line\<close> succeeds and puts \<open>4 + length b\<close> bytes on the wire, and
  \<open>recv_line\<close> on a socket that receives these bytes (followed by any further input
  \<open>rest\<close>) returns exactly \<open>b\<close> and leaves \<open>rest\<close> unread. For the empty string this is
  the four header bytes and nothing more.
\<close>

theorem framing_round_trip:
  assumes "length b < 2 ^ 32"
    and "0 \<notin> set (tx_sched s)" and "0 \<notin> set (rx_sched r)"
    and "rx r = drop (length (tx s)) (tx (snd (send_line s b))) @ rest"
  shows "fst (send_line s b) \<and> fst (recv_line r) = Some b \<and> rx (snd (recv_line r)) = rest
     \<and> length (tx (snd (send_line s b))) = length (tx s) + 4 + length b"
  using assms loopback_recv_line [OF assms(2,3,4)] by (simp add: send_line_ok)

theorem framing_round_trip_witness:
  "length ('''' :: string) < 2 ^ 32
   \<and> fst (send_line \<lparr>rx = [], rx_sched = [], tx = [], tx_sched = [3, 1]\<rparr> '''')
   \<and> fst (recv_line \<lparr>rx = tx (snd (send_line \<lparr>rx = [], rx_sched = [], tx = [], tx_sched = [3, 1]\<rparr> '''')) @ ''next'',
                      rx_sched = [1, 2], tx = [], tx_sched = []\<rparr>) = Some ''''
   \<and> rx (snd (recv_line \<lparr>rx = tx (snd (send_line \<lparr>rx = [], rx_sched = [], tx = [], tx_sched = [3, 1]\<rparr> '''')) @ ''next'',
                      rx_sched = [1, 2], tx = [], tx_sched = []\<rparr>)) = ''next''"
  using framing_round_trip [of "''''" "\<lparr>rx = [], rx_sched = [], tx = [], tx_sched = [3, 1]\<rparr>"
      "\<lparr>rx = tx (snd (send_line \<lparr>rx = [], rx_sched = [], tx = [], tx_sched = [3, 1]\<rparr> '''')) @ ''next'',
                      rx_sched = [1, 2], tx = [], tx_sched = []\<rparr>" "''next''"]
  by simp

text \<open>
  The claim as stated (every byte sequence) fails for a string of \<open>2 ^ 32\<close> bytes: its
  length is sent as 0, and the receiver returns the empty string.
\<close>

theorem framing_round_trip_counterexample:
  "fst (recv_line \<lparr>rx = tx (snd (send_line \<lparr>rx = [], rx_sched = [], tx = [], tx_sched = []\<rparr>
                                   (replicate (2 ^ 32) (CHR ''a'')))),
                    rx_sched = [], tx = [], tx_sched = []\<rparr>)
     \<noteq> Some (replicate (2 ^ 32) (CHR ''a''))"
proof -
  define b where "b = replicate (2 ^ 32) (CHR ''a'')"
  define s where "s = \<lparr>rx = [], rx_sched = [], tx = [], tx_sched = []\<rparr>"
  define r where "r = \<lparr>rx = tx (snd (send_line s b)), rx_sched = [], tx = [], tx_sched = []\<rparr>"
  have len: "length b = 2 ^ 32" by (simp only: b_def length_replicate)
  have "fst (recv_line r) = Some (take (length b mod 2 ^ 32) b)"
    by (rule loopback_recv_line(1) [where s = s and rest = "[]"]) (simp_all add: s_def r_def)
  then have "fst (recv_line r) = Some []" by (simp add: len)
  moreover have "b \<noteq> []" using len by auto
  ultimately have "fst (recv_line r) \<noteq> Some b" by simp
  then show ?thesis unfolding r_def s_def b_def .
qed

text \<open>
  Claim C10. On a socket whose sends do not fail, \<open>send_line\<close> writes the four-byte
  big-endian encoding of \<open>s.size() mod 2 ^ 32\<close> followed by all \<open>s.size()\<close> bytes of the
  string; and a receiver of exactly these bytes gets the string back from \<open>recv_line\<close>
  if and only if the string is shorter than \<open>2 ^ 32\<close> bytes.
\<close>

theorem send_line_length_truncation:
  assumes "0 \<notin> set (tx_sched s)"
  shows "fst (send_line s str)
     \<and> tx (snd (send_line s str)) = tx s @ be_bytes 4 (length str mod 2 ^ 32) @ str
     \<and> (0 \<notin> set (rx_sched r) \<and> rx r = drop (length (tx s)) (tx (snd (send_line s str)))
          \<longrightarrow> (fst (recv_line r) = Some str \<longleftrightarrow> length str < 2 ^ 32))"
proof -
  have "fst (recv_line r) = Some str \<longleftrightarrow> length str < 2 ^ 32"
    if "0 \<notin> set (rx_sched r)" "rx r = drop (length (tx s)) (tx (snd (send_line s str)))"
  proof -
    have "fst (recv_line r) = Some (take (length str mod 2 ^ 32) str)"
      by (rule loopback_recv_line(1) [where s = s and rest = "[]"]) (use assms that in simp_all)
    moreover have "take (length str mod 2 ^ 32) str = str \<longleftrightarrow> length str < 2 ^ 32"
    proof
      assume "take (length str mod 2 ^ 32) str = str"
      then have "length (take (length str mod 2 ^ 32) str) = length str" by simp
      then have "length str mod 2 ^ 32 = length str" by (simp add: min_def split: if_splits)
      moreover have "length str mod 2 ^ 32 < 2 ^ 32" by simp
      ultimately show "length str < 2 ^ 32" by simp
    qed simp
    ultimately show ?thesis by simp
  qed
  then show ?thesis using assms by (simp add: send_line_ok)
qed

theorem send_line_length_truncation_witness:
  "fst (send_line \<lparr>rx = [], rx_sched = [], tx = [], tx_sched = [2]\<rparr> ''abc'')
   \<and> tx (snd (send_line \<lparr>rx = [], rx_sched = [], tx = [], tx_sched = [2]\<rparr> ''abc''))
       = tx \<lparr>rx = [], rx_sched = [], tx = [], tx_sched = [2]\<rparr> @ be_bytes 4 (length ''abc'' mod 2 ^ 32) @ ''abc''
   \<and> fst (recv_line \<lparr>rx = tx (snd (send_line \<lparr>rx = [], rx_sched = [], tx = [], tx_sched = [2]\<rparr> ''abc'')),
                      rx_sched = [1], tx = [], tx_sched = []\<rparr>) = Some ''abc''"
proof -
  let ?s = "\<lparr>rx = [], rx_sched = [], tx = [], tx_sched = [2]\<rparr>"
  let ?r = "\<lparr>rx = tx (snd (send_line ?s ''abc'')), rx_sched = [1], tx = [], tx_sched = []\<rparr>"
  have a: "0 \<notin> set (tx_sched ?s)" by simp
  have b: "0 \<notin> set (rx_sched ?r) \<and> rx ?r = drop (length (tx ?s)) (tx (snd (send_line ?s ''abc'')))"
    by simp
  have c: "length ''abc'' < (2 :: nat) ^ 32" by simp
  show ?thesis
    using send_line_length_truncation [OF a, of "''abc''" ?r] b c by blast
qed

section \<open>Credential check\<close>

lemma find_char_None: "find_char c s = None \<longleftrightarrow> c \<notin> set s"
  by (induction s) auto

lemma find_char_Some:
  "find_char c s = Some i \<Longrightarrow>
     take i s = takeWhile (\<lambda>x. x \<noteq> c) s \<and> drop (i + 1) s = tl (dropWhile (\<lambda>x. x \<noteq> c) s)"
  by (induction s arbitrary: i) (auto split: if_splits)

lemma check_lines_iff: "check_lines ls user pass \<longleftrightarrow> (user, pass) \<in> set (store_entries ls)"
proof (induction ls)
  case Nil
  then show ?case by (simp add: store_entries_def)
next
  case (Cons l ls)
  show ?case
  proof (cases "find_char (CHR '':'') l")
    case None
    then have "CHR '':'' \<notin> set l" by (simp add: find_char_None)
    then show ?thesis using None Cons by (simp add: store_entries_def)
  next
    case (Some pos)
    then have "CHR '':'' \<in> set l" using find_char_None [of "CHR '':''" l] by auto
    then show ?thesis
      using Some Cons find_char_Some [OF Some] by (auto simp add: store_entries_def Let_def)
  qed
qed

lemma c_str_USERS_FILE: "c_str USERS_FILE = USERS_FILE"
  by (simp add: c_str_def USERS_FILE_def)

lemma c_str_no_NUL: "CHR 0x00 \<notin> set path \<Longrightarrow> c_str path = path"
  unfolding c_str_def by (induction path) auto

text \<open>
  Claim C4, as amended. \<open>check_auth\<close> succeeds if and only if the credential file opens
  and some line of what it delivers that has a colon carries the given username before its first colon
  and the given password after it: any matching line decides, not only the first line
  for that username. When no username occurs twice in the store this is the lookup of
  the username, first match winning.
\<close>

theorem check_auth_any_match:
  "(fst (check_auth w user pass) \<longleftrightarrow>
      (\<exists>node. files w USERS_FILE = Some node
         \<and> (user, pass) \<in> set (store_entries (getlines [] (stream_bytes node)))))
   \<and> (distinct (map fst (store_entries ls)) \<longrightarrow>
        (check_lines ls user pass \<longleftrightarrow> map_of (store_entries ls) user = Some pass))"
proof -
  have "fst (check_auth w user pass) \<longleftrightarrow>
      (\<exists>node. files w USERS_FILE = Some node
         \<and> (user, pass) \<in> set (store_entries (getlines [] (stream_bytes node))))"
    by (cases "files w USERS_FILE")
       (simp_all add: check_auth_def open_read_def c_str_USERS_FILE check_lines_iff)
  moreover have "check_lines ls user pass \<longleftrightarrow> map_of (store_entries ls) user = Some pass"
    if "distinct (map fst (store_entries ls))"
    using that by (simp add: check_lines_iff)
  ultimately show ?thesis by blast
qed

theorem check_auth_any_match_witness:
  "fst (check_auth \<lparr>conn = \<lparr>rx = [], rx_sched = [], tx = [], tx_sched = []\<rparr>,
          files = (\<lambda>p. if p = USERS_FILE then Some (Regular (''bob:pw'' @ [CHR 0x0A] @ ''alice:secret'' @ [CHR 0x0A])) else None),
          writable = (\<lambda>p. False), dirs = (\<lambda>p. None), fs_log = [], closed = False\<rparr> ''alice'' ''secret'')
   \<and> distinct (map fst (store_entries [''bob:pw'', ''alice:secret'']))
   \<and> check_lines [''bob:pw'', ''alice:secret''] ''alice'' ''secret''
   \<and> map_of (store_entries [''bob:pw'', ''alice:secret'']) ''alice'' = Some ''secret''"
proof -
  let ?w = "\<lparr>conn = \<lparr>rx = [], rx_sched = [], tx = [], tx_sched = []\<rparr>,
          files = (\<lambda>p. if p = USERS_FILE then Some (Regular (''bob:pw'' @ [CHR 0x0A] @ ''alice:secret'' @ [CHR 0x0A])) else None),
          writable = (\<lambda>p. False), dirs = (\<lambda>p. None), fs_log = [], closed = False\<rparr>"
  let ?ls = "[''bob:pw'', ''alice:secret'']"
  have g: "getlines [] (''bob:pw'' @ [CHR 0x0A] @ ''alice:secret'' @ [CHR 0x0A]) = ?ls"
    by simp
  have e: "store_entries ?ls = [(''bob'', ''pw''), (''alice'', ''secret'')]"
    by (simp add: store_entries_def)
  have d: "distinct (map fst (store_entries ?ls))"
    by (simp add: e)
  have m: "map_of (store_entries ?ls) ''alice'' = Some ''secret''"
    by (simp add: e)
  have f: "\<exists>node. files ?w USERS_FILE = Some node
         \<and> (''alice'', ''secret'') \<in> set (store_entries (getlines [] (stream_bytes node)))"
    by (simp add: g e)
  show ?thesis
    using check_auth_any_match [of ?w "''alice''" "''secret''" ?ls] d m f by blast
qed

text \<open>
  The claim as stated (only the first line for a username decides) fails on a store with
  a duplicate username: the password of the second line is accepted.
\<close>

theorem check_auth_first_match_counterexample:
  "\<not> (fst (check_auth \<lparr>conn = \<lparr>rx = [], rx_sched = [], tx = [], tx_sched = []\<rparr>,
               files = (\<lambda>p. if p = USERS_FILE
                              then Some (Regular (''alice:a'' @ [CHR 0x0A] @ ''alice:b'' @ [CHR 0x0A])) else None),
               writable = (\<lambda>p. False), dirs = (\<lambda>p. None), fs_log = [], closed = False\<rparr>
             ''alice'' ''b'')
        \<longleftrightarrow> map_of (store_entries (getlines [] (''alice:a'' @ [CHR 0x0A] @ ''alice:b'' @ [CHR 0x0A])))
              ''alice'' = Some ''b'')"
  by (simp add: check_auth_def open_read_def c_str_USERS_FILE store_entries_def)

section \<open>Bulk transfer on a socket whose calls do not fail\<close>

lemma length_xor_in_place: "n \<le> length buf \<Longrightarrow> length (xor_in_place buf n) = length buf"
  by (simp add: xor_in_place_eq)

lemma take_xor_in_place:
  "length bytes = n \<Longrightarrow> take n (xor_in_place (bytes @ rest) n) = map xor_char bytes"
  by (simp add: xor_in_place_eq)

lemma send_chunks_ok:
  "0 \<notin> set (tx_sched s) \<Longrightarrow> length buf = BUF_SIZE \<Longrightarrow> good \<or> src = [] \<Longrightarrow>
   \<exists>ks. 0 \<notin> set ks \<and>
     send_chunks s buf src good = (True, s\<lparr>tx := tx s @ map xor_char src, tx_sched := ks\<rparr>)"
proof (induction s buf src good rule: send_chunks.induct)
  case (1 s buf src good)
  show ?case
  proof (cases "src = []")
    case True
    then have "send_chunks s buf src good = (True, s)" by (simp add: send_chunks_stop)
    then show ?thesis using True "1.prems"(1) by (intro exI [of _ "tx_sched s"]) simp
  next
    case ne: False
    then have g: "good = True" using "1.prems"(3) by simp
    let ?got = "min BUF_SIZE (length src)"
    let ?buf1 = "take ?got src @ drop ?got buf"
    let ?buf2 = "xor_in_place ?buf1 ?got"
    have gp: "\<not> ?got \<le> 0" using ne by (simp add: BUF_SIZE_pos)
    have l1: "length ?buf1 = BUF_SIZE" using "1.prems"(2) by simp
    have l2: "length ?buf2 = BUF_SIZE" using l1 by (simp add: length_xor_in_place)
    have tk: "take ?got ?buf2 = map xor_char (take ?got src)"
      by (rule take_xor_in_place) simp
    let ?s1 = "s\<lparr>tx := tx s @ map xor_char (take ?got src),
                 tx_sched := consume (tx_sched s) ?got\<rparr>"
    have r1: "send_all s (take ?got ?buf2) = (True, ?s1)"
      using send_all_ok [OF "1.prems"(1), of "map xor_char (take ?got src)"] by (simp add: tk)
    have h1: "0 \<notin> set (tx_sched ?s1)" using "1.prems"(1) by (simp add: consume_ok)
    have g1: "(BUF_SIZE \<le> length src) \<or> drop ?got src = []" by auto
    obtain ks where ks: "0 \<notin> set ks"
      "send_chunks ?s1 ?buf2 (drop ?got src) (BUF_SIZE \<le> length src)
         = (True, ?s1\<lparr>tx := tx ?s1 @ map xor_char (drop ?got src), tx_sched := ks\<rparr>)"
      using "1.IH" [of ?got ?buf1 "BUF_SIZE \<le> length src" ?buf2 True ?s1] g gp r1 h1 l2 g1
      by auto
    have "map xor_char (take ?got src) @ map xor_char (drop ?got src) = map xor_char src"
      by (simp flip: map_append)
    then have "send_chunks s buf src good = (True, s\<lparr>tx := tx s @ map xor_char src, tx_sched := ks\<rparr>)"
      using g r1 ks(2) by (simp add: send_chunks_step [OF ne] Let_def)
    then show ?thesis using ks(1) by blast
  qed
qed

lemma send_file_encrypted_ok:
  assumes "0 \<notin> set (tx_sched (conn w))" and "files w (c_str path) = Some node"
  shows "\<exists>ks. 0 \<notin> set ks \<and>
     send_file_encrypted w path =
       (True, w\<lparr>conn := (conn w)\<lparr>tx := tx (conn w) @ be_bytes 8 (unat (tell_end node))
                                         @ map xor_char (stream_bytes node),
                                 tx_sched := ks\<rparr>,
                 fs_log := fs_log w @ [OpenRead (c_str path)]\<rparr>)"
proof -
  define hdr where "hdr = be_bytes 8 (unat (tell_end node))"
  have w: "store64 (host_to_be64 (tell_end node)) = hdr"
    by (simp only: hdr_def store64_host_to_be64 rev_store64)
  have l: "length hdr = 8" by (simp add: hdr_def)
  let ?s1 = "(conn w)\<lparr>tx := tx (conn w) @ hdr, tx_sched := consume (tx_sched (conn w)) 8\<rparr>"
  have 1: "send_all (conn w) hdr = (True, ?s1)"
    using send_all_ok [OF assms(1), of hdr] by (simp add: l)
  have h1: "0 \<notin> set (tx_sched ?s1)" using assms(1) by (simp add: consume_ok)
  obtain ks where ks: "0 \<notin> set ks"
    "send_chunks ?s1 (replicate BUF_SIZE (CHR 0x00)) (stream_bytes node) True
       = (True, ?s1\<lparr>tx := tx ?s1 @ map xor_char (stream_bytes node), tx_sched := ks\<rparr>)"
    using send_chunks_ok [OF h1, of "replicate BUF_SIZE (CHR 0x00)" True "stream_bytes node"]
    by auto
  have "send_file_encrypted w path =
       (True, w\<lparr>conn := (conn w)\<lparr>tx := tx (conn w) @ hdr @ map xor_char (stream_bytes node),
                                 tx_sched := ks\<rparr>,
                 fs_log := fs_log w @ [OpenRead (c_str path)]\<rparr>)"
    using assms(2) 1 ks(2) by (simp add: send_file_encrypted_def open_read_def Let_def w)
  then show ?thesis using ks(1) unfolding hdr_def by blast
qed

lemma unat_minus_chunk:
  "chunk \<le> unat (left :: u64) \<Longrightarrow> unat (left - of_nat chunk) = unat left - chunk"
proof -
  assume c: "chunk \<le> unat left"
  have u: "unat (of_nat chunk :: u64) = chunk"
    using c by (rule le_unat_uoi)
  then have "(of_nat chunk :: u64) \<le> left"
    using c by (simp add: word_le_nat_alt)
  then show ?thesis
    using u by (simp add: unat_sub)
qed

lemma write_file_simps [simp]:
  "files (write_file w path bytes) =
     (files w)(path \<mapsto> Regular ((case files w path of Some (Regular old) \<Rightarrow> old | _ \<Rightarrow> []) @ bytes))"
  "fs_log (write_file w path bytes) = fs_log w"
  by (simp_all add: write_file_def)

lemma whole_chunks_0: "whole_chunks s 0 = 0"
  by (subst whole_chunks.simps) simp

lemma whole_chunks_step:
  "0 < left \<Longrightarrow>
   whole_chunks s left =
     (case recv_all s (min BUF_SIZE left) of
        (None, s1) \<Rightarrow> 0
      | (Some bytes, s1) \<Rightarrow> min BUF_SIZE left + whole_chunks s1 (left - min BUF_SIZE left))"
  by (subst whole_chunks.simps) (simp add: Let_def)

lemma recv_chunks_prefix:
  "recv_chunks w path buf left = (ok, w') \<Longrightarrow> files w path = Some (Regular old) \<Longrightarrow>
   \<exists>k c. k = whole_chunks (conn w) (unat left)
      \<and> k + c \<le> length (rx (conn w)) \<and> k \<le> unat left
      \<and> files w' path = Some (Regular (old @ map xor_char (take k (rx (conn w)))))
      \<and> rx (conn w') = drop (k + c) (rx (conn w))
      \<and> (ok \<longrightarrow> k = unat left \<and> c = 0)
      \<and> (\<not> ok \<longrightarrow> k + c < unat left \<and> BUF_SIZE dvd k \<and> c < BUF_SIZE)"
proof (induction w path buf left arbitrary: ok w' old rule: recv_chunks.induct)
  case (1 w path buf left)
  show ?case
  proof (cases "0 < left")
    case False
    then have z: "left = 0" by (simp add: word_greater_zero_iff)
    with "1.prems" have "ok" "w' = w" by (simp_all add: recv_chunks_stop)
    then show ?thesis using z "1.prems"(2)
      by (intro exI [of _ 0]) (simp add: whole_chunks_0)
  next
    case True
    let ?chunk = "min BUF_SIZE (unat left)"
    have ul: "0 < unat left" using True by (simp add: word_greater_zero_iff unat_gt_0)
    have cl: "?chunk \<le> unat left" "0 < ?chunk" "?chunk \<le> BUF_SIZE"
      using ul by (simp_all add: BUF_SIZE_pos)
    obtain res s1 where r1: "recv_all (conn w) ?chunk = (res, s1)" by force
    note st = recv_chunks_step [OF True, of w path buf, unfolded Let_def]
    note wst = whole_chunks_step [OF ul, of "conn w"]
    show ?thesis
    proof (cases res)
      case None
      then have nok: "\<not> ok" "w' = w\<lparr>conn := s1\<rparr>" using "1.prems"(1) r1 by (simp_all add: st)
      obtain c where c: "c < ?chunk" "c \<le> length (rx (conn w))" "rx s1 = drop c (rx (conn w))"
        using recv_all_None [OF r1 [unfolded None]] by blast
      have wc: "whole_chunks (conn w) (unat left) = 0" using r1 None by (simp add: wst)
      show ?thesis
      proof (rule exI [of _ 0], rule exI [of _ c], intro conjI impI)
        show "0 = whole_chunks (conn w) (unat left)" using wc by simp
        show "0 + c \<le> length (rx (conn w))" using c(2) by simp
        show "files w' path = Some (Regular (old @ map xor_char (take 0 (rx (conn w)))))"
          using nok "1.prems"(2) by simp
        show "rx (conn w') = drop (0 + c) (rx (conn w))" using nok c(3) by simp
        show "0 + c < unat left" using c(1) cl(1) by linarith
        show "c < BUF_SIZE" using c(1) cl(3) by linarith
      qed (use nok in simp_all)
    next
      case (Some bytes)
      note rs = recv_all_Some [OF r1 [unfolded Some]]
      let ?buf2 = "xor_in_place (bytes @ drop ?chunk buf) ?chunk"
      let ?w1 = "write_file (w\<lparr>conn := s1\<rparr>) path (take ?chunk ?buf2)"
      have tk: "take ?chunk ?buf2 = map xor_char bytes"
        using rs by (intro take_xor_in_place) simp
      have f1: "files ?w1 path = Some (Regular (old @ map xor_char bytes))"
        using "1.prems"(2) by (simp add: tk)
      have rec: "recv_chunks ?w1 path ?buf2 (left - of_nat ?chunk) = (ok, w')"
        using "1.prems"(1) r1 Some by (simp add: st)
      have ul': "unat (left - of_nat ?chunk) = unat left - ?chunk"
        using cl(1) by (rule unat_minus_chunk)
      have c1: "conn ?w1 = s1" by simp
      obtain k1 c where k1: "k1 = whole_chunks s1 (unat left - ?chunk)"
        "k1 + c \<le> length (rx s1)" "k1 \<le> unat left - ?chunk"
        "files w' path = Some (Regular ((old @ map xor_char bytes) @ map xor_char (take k1 (rx s1))))"
        "rx (conn w') = drop (k1 + c) (rx s1)"
        "ok \<longrightarrow> k1 = unat left - ?chunk \<and> c = 0"
        "\<not> ok \<longrightarrow> k1 + c < unat left - ?chunk \<and> BUF_SIZE dvd k1 \<and> c < BUF_SIZE"
        using "1.IH" [of ?chunk "Some bytes" s1 bytes "bytes @ drop ?chunk buf" ?buf2 ?w1 ok w'
            "old @ map xor_char bytes", OF True refl r1 [unfolded Some, symmetric] refl refl refl refl rec f1]
        unfolding c1 ul' by blast
      have rx: "rx (conn w) = bytes @ rx s1" "length bytes = ?chunk" using rs by simp_all
      have tk2: "take (?chunk + k1) (rx (conn w)) = bytes @ take k1 (rx s1)"
        using rx by simp
      have dr2: "drop (?chunk + k1 + c) (rx (conn w)) = drop (k1 + c) (rx s1)"
        using rx by simp
      have full: "\<not> ok \<longrightarrow> ?chunk = BUF_SIZE"
        using k1(7) cl by (auto simp add: min_def split: if_splits)
      have wc: "whole_chunks (conn w) (unat left) = ?chunk + k1"
        using r1 Some k1(1) by (simp add: wst)
      show ?thesis
      proof (rule exI [of _ "?chunk + k1"], rule exI [of _ c], intro conjI impI)
        show "?chunk + k1 = whole_chunks (conn w) (unat left)" using wc by simp
        show "?chunk + k1 + c \<le> length (rx (conn w))" using k1(2) rx by simp
        show "?chunk + k1 \<le> unat left" using k1(3) cl by linarith
        show "files w' path = Some (Regular (old @ map xor_char (take (?chunk + k1) (rx (conn w)))))"
          using k1(4) by (simp only: tk2) simp
        show "rx (conn w') = drop (?chunk + k1 + c) (rx (conn w))"
          using k1(5) by (simp only: dr2)
        show "?chunk + k1 = unat left" if ok using that k1(6) cl by linarith
        show "c = 0" if ok using that k1(6) by simp
        show "?chunk + k1 + c < unat left" if "\<not> ok" using that k1(7) cl by linarith
        show "BUF_SIZE dvd ?chunk + k1" if "\<not> ok" using that k1(7) full by simp
        show "c < BUF_SIZE" if "\<not> ok" using that k1(7) by simp
      qed
    qed
  qed
qed

lemma recv_all_short:
  "0 \<notin> set (rx_sched s) \<Longrightarrow> length (rx s) < n \<Longrightarrow> fst (recv_all s n) = None"
proof (induction s n rule: recv_all.induct)
  case (1 s len)
  have pos: "0 < len" using "1.prems"(2) by simp
  define k where "k = (case rx_sched s of [] \<Rightarrow> len | k # _ \<Rightarrow> k)"
  define n where "n = min len (min k (length (rx s)))"
  define s' where "s' = s\<lparr>rx_sched := tl (rx_sched s), rx := drop n (rx s)\<rparr>"
  have k: "k \<noteq> 0" using "1.prems"(1) pos by (auto simp: k_def split: list.splits)
  have rcv: "recv s len = (int n, take n (rx s), s')"
    using k by (simp add: recv_def Let_def k_def n_def s'_def)
  note st = recv_all_step [OF pos rcv]
  show ?case
  proof (cases "n = 0")
    case True
    then show ?thesis by (simp add: st)
  next
    case False
    have h': "0 \<notin> set (rx_sched s')"
      using "1.prems"(1) by (cases "rx_sched s") (auto simp: s'_def)
    have l': "length (rx s') < len - n"
      using "1.prems"(2) by (simp add: s'_def n_def)
    have "fst (recv_all s' (len - n)) = None"
      using "1.IH" [of "int n" "(take n (rx s), s')" "take n (rx s)" s'] pos rcv False h' l' by simp
    then show ?thesis using False by (cases "recv_all s' (len - n)") (auto simp add: st)
  qed
qed

lemma recv_chunks_ok:
  assumes "0 \<notin> set (rx_sched (conn w))" and "unat left \<le> length (rx (conn w))"
  shows "fst (recv_chunks w path buf left)"
  using assms
proof (induction w path buf left rule: recv_chunks.induct)
  case (1 w path buf left)
  show ?case
  proof (cases "0 < left")
    case False
    then have "left = 0" by (simp add: word_greater_zero_iff)
    then show ?thesis by (simp add: recv_chunks_stop)
  next
    case True
    let ?chunk = "min BUF_SIZE (unat left)"
    have cl: "?chunk \<le> unat left" by simp
    let ?s1 = "(conn w)\<lparr>rx := drop ?chunk (rx (conn w)), rx_sched := consume (rx_sched (conn w)) ?chunk\<rparr>"
    let ?bytes = "take ?chunk (rx (conn w))"
    have r1: "recv_all (conn w) ?chunk = (Some ?bytes, ?s1)"
      using "1.prems" by (intro recv_all_ok) simp_all
    let ?buf2 = "xor_in_place (?bytes @ drop ?chunk buf) ?chunk"
    let ?w1 = "write_file (w\<lparr>conn := ?s1\<rparr>) path (take ?chunk ?buf2)"
    have h1: "0 \<notin> set (rx_sched (conn ?w1))" using "1.prems"(1) by (simp add: consume_ok)
    have l1: "unat (left - of_nat ?chunk) \<le> length (rx (conn ?w1))"
      using "1.prems"(2) by (simp add: unat_minus_chunk [OF cl])
    note ih = "1.IH" [of ?chunk "Some ?bytes" ?s1 ?bytes "?bytes @ drop ?chunk buf" ?buf2 ?w1, OF True refl r1 [symmetric] refl refl refl refl h1 l1]
    have "fst (recv_chunks ?w1 path ?buf2 (left - of_nat ?chunk))"
      by (rule ih)
    moreover have "recv_chunks w path buf left = recv_chunks ?w1 path ?buf2 (left - of_nat ?chunk)"
      unfolding recv_chunks_step [OF True, of w path buf, unfolded Let_def] r1 by simp
    ultimately show ?thesis by (simp only:)
  qed
qed

lemma recv_chunks_short:
  assumes "0 \<notin> set (rx_sched (conn w))" and "length (rx (conn w)) < unat left"
    and "files w path = Some (Regular old)"
  shows "files (snd (recv_chunks w path buf left)) path
           = Some (Regular (old @ map xor_char (take (BUF_SIZE * (length (rx (conn w)) div BUF_SIZE)) (rx (conn w)))))"
  using assms
proof (induction w path buf left arbitrary: old rule: recv_chunks.induct)
  case (1 w path buf left)
  have True: "0 < left" using "1.prems"(2) by (cases "left = 0") (simp_all add: word_greater_zero_iff)
  let ?rx = "rx (conn w)"
  let ?chunk = "min BUF_SIZE (unat left)"
  have cl: "?chunk \<le> unat left" by simp
  note st = recv_chunks_step [OF True, of w path buf, unfolded Let_def]
  show ?case
  proof (cases "length ?rx < ?chunk")
    case True
    then have "fst (recv_all (conn w) ?chunk) = None"
      using "1.prems"(1) by (intro recv_all_short)
    then obtain s1 where r1: "recv_all (conn w) ?chunk = (None, s1)"
      by (cases "recv_all (conn w) ?chunk") auto
    have "length ?rx div BUF_SIZE = 0" using True by simp
    moreover have "recv_chunks w path buf left = (False, w\<lparr>conn := s1\<rparr>)"
      unfolding st r1 by simp
    ultimately show ?thesis using "1.prems"(3) by simp
  next
    case False
    then have full: "?chunk = BUF_SIZE" using "1.prems"(2) by (simp add: min_def split: if_splits)
    have ge: "BUF_SIZE \<le> length ?rx" using False full by simp
    let ?s1 = "(conn w)\<lparr>rx := drop ?chunk ?rx, rx_sched := consume (rx_sched (conn w)) ?chunk\<rparr>"
    let ?bytes = "take ?chunk ?rx"
    have ge': "?chunk \<le> length ?rx" using False by linarith
    have r1: "recv_all (conn w) ?chunk = (Some ?bytes, ?s1)"
      using "1.prems"(1) ge' by (rule recv_all_ok)
    let ?buf2 = "xor_in_place (?bytes @ drop ?chunk buf) ?chunk"
    let ?w1 = "write_file (w\<lparr>conn := ?s1\<rparr>) path (take ?chunk ?buf2)"
    have tk: "take ?chunk ?buf2 = map xor_char ?bytes"
      using ge' by (intro take_xor_in_place) simp
    have h1: "0 \<notin> set (rx_sched (conn ?w1))" using "1.prems"(1) by (simp add: consume_ok)
    have u: "unat (left - of_nat BUF_SIZE) = unat left - BUF_SIZE"
      using unat_minus_chunk [OF cl] by (simp only: full)
    have l1: "length (rx (conn ?w1)) < unat (left - of_nat ?chunk)"
      using "1.prems"(2) ge by (simp add: full u)
    have f1: "files ?w1 path = Some (Regular (old @ map xor_char ?bytes))"
      using "1.prems"(3) by (simp add: tk)
    have ih: "files (snd (recv_chunks ?w1 path ?buf2 (left - of_nat ?chunk))) path
        = Some (Regular ((old @ map xor_char ?bytes)
            @ map xor_char (take (BUF_SIZE * (length (rx (conn ?w1)) div BUF_SIZE)) (rx (conn ?w1)))))"
      by (rule "1.IH" [of ?chunk "Some ?bytes" ?s1 ?bytes "?bytes @ drop ?chunk buf" ?buf2 ?w1
          "old @ map xor_char ?bytes", OF \<open>0 < left\<close> refl r1 [symmetric] refl refl refl refl h1 l1 f1])
    define q where "q = (length ?rx - BUF_SIZE) div BUF_SIZE"
    have q: "length ?rx div BUF_SIZE = Suc q"
      unfolding q_def using ge BUF_SIZE_pos by (simp add: le_div_geq)
    have q1: "length (rx (conn ?w1)) div BUF_SIZE = q"
      by (simp add: q_def full)
    have rx1: "rx (conn ?w1) = drop BUF_SIZE ?rx" "?bytes = take BUF_SIZE ?rx"
      by (simp_all add: full)
    have "take BUF_SIZE ?rx @ take (BUF_SIZE * q) (drop BUF_SIZE ?rx) = take (BUF_SIZE * Suc q) ?rx"
      by (simp add: take_add)
    then have cat: "map xor_char (take BUF_SIZE ?rx) @ map xor_char (take (BUF_SIZE * q) (drop BUF_SIZE ?rx))
        = map xor_char (take (BUF_SIZE * Suc q) ?rx)"
      by (simp only: flip: map_append)
    have "(old @ map xor_char ?bytes)
            @ map xor_char (take (BUF_SIZE * (length (rx (conn ?w1)) div BUF_SIZE)) (rx (conn ?w1)))
        = old @ map xor_char (take (BUF_SIZE * Suc q) ?rx)"
      using cat by (simp add: full flip: q_def)
    then have "files (snd (recv_chunks ?w1 path ?buf2 (left - of_nat ?chunk))) path
        = Some (Regular (old @ map xor_char (take (BUF_SIZE * Suc q) ?rx)))"
      by (simp only: ih)
    moreover have "recv_chunks w path buf left = recv_chunks ?w1 path ?buf2 (left - of_nat ?chunk)"
      unfolding st r1 by simp
    ultimately show ?thesis
      by (simp only: q)
  qed
qed

section \<open>Bulk transfer: round trip and failure\<close>

lemma recv_file_encrypted_body:
  assumes "recv_all (conn w) 8 = (Some hdr, s1)" and "writable w (c_str path)"
  shows "recv_file_encrypted w path =
           recv_chunks (w\<lparr>conn := s1, fs_log := fs_log w @ [OpenWrite (c_str path)],
                          files := (files w)(c_str path \<mapsto> Regular [])\<rparr>)
             (c_str path) (replicate BUF_SIZE (CHR 0x00)) (be64_to_host (load hdr))"
  using assms by (simp add: recv_file_encrypted_def Let_def)

lemma recv_all_one_call:
  assumes "rx_sched s = k # ks" and "0 < n" and "n \<le> k" and "n \<le> length (rx s)"
  shows "recv_all s n = (Some (take n (rx s)), s\<lparr>rx := drop n (rx s), rx_sched := ks\<rparr>)"
proof -
  have "recv s n = (int n, take n (rx s), s\<lparr>rx_sched := ks, rx := drop n (rx s)\<rparr>)"
    using assms by (simp add: recv_def Let_def min_def)
  from recv_all_step [OF assms(2) this] show ?thesis
    using assms(2) by (simp add: recv_all_0)
qed

lemma recv_all_failing_call:
  assumes "rx_sched s = 0 # ks" and "0 < n"
  shows "recv_all s n = (None, s\<lparr>rx_sched := ks\<rparr>)"
proof -
  have "recv s n = (- 1, [], s\<lparr>rx_sched := ks\<rparr>)"
    using assms by (simp add: recv_def Let_def)
  from recv_all_step [OF assms(2) this] show ?thesis by simp
qed

text \<open>
  Claim C1. Bulk round trip: for every file content \<open>data\<close> (any length below
  \<open>2 ^ 64\<close>, which a file offset cannot exceed; the empty file included) and however the
  kernel splits the transfers on either side, \<open>send_file_encrypted\<close> succeeds and puts
  the eight-byte big-endian length and the transformed bytes on the wire, and
  \<open>recv_file_encrypted\<close> on a socket that receives these bytes (followed by any further
  input \<open>rest\<close>) succeeds, leaves exactly \<open>data\<close> in the destination file and leaves
  \<open>rest\<close> unread. The length of \<open>data\<close> is arbitrary with respect to the 64 KiB chunk.
  The source is a regular file; each side's file is the one its stream opens, at the
  path up to the first NUL.
\<close>

theorem bulk_round_trip:
  assumes src: "files ws (c_str src) = Some (Regular data)" and len: "length data < 2 ^ 64"
    and tx: "0 \<notin> set (tx_sched (conn ws))" and rx: "0 \<notin> set (rx_sched (conn wr))"
    and dst: "writable wr (c_str dst)"
    and wire: "rx (conn wr)
       = drop (length (tx (conn ws))) (tx (conn (snd (send_file_encrypted ws src)))) @ rest"
  shows "fst (send_file_encrypted ws src)
     \<and> tx (conn (snd (send_file_encrypted ws src)))
         = tx (conn ws) @ be_bytes 8 (length data) @ map xor_char data
     \<and> fst (recv_file_encrypted wr dst)
     \<and> files (snd (recv_file_encrypted wr dst)) (c_str dst) = Some (Regular data)
     \<and> rx (conn (snd (recv_file_encrypted wr dst))) = rest"
proof -
  define hdr where "hdr = be_bytes 8 (length data)"
  have u: "unat (of_nat (length data) :: u64) = length data"
    using len by (simp add: unat_of_nat)
  have te: "unat (tell_end (Regular data)) = length data" using u by simp
  obtain ks where snd:
    "send_file_encrypted ws src =
       (True, ws\<lparr>conn := (conn ws)\<lparr>tx := tx (conn ws) @ hdr @ map xor_char data, tx_sched := ks\<rparr>,
                 fs_log := fs_log ws @ [OpenRead (c_str src)]\<rparr>)"
    using send_file_encrypted_ok [OF tx src] unfolding te hdr_def stream_bytes.simps by blast
  have l: "length hdr = 8" by (simp add: hdr_def)
  have rxw: "rx (conn wr) = hdr @ map xor_char data @ rest"
    using wire by (simp add: snd)
  let ?s1 = "(conn wr)\<lparr>rx := map xor_char data @ rest, rx_sched := consume (rx_sched (conn wr)) 8\<rparr>"
  have r1: "recv_all (conn wr) 8 = (Some hdr, ?s1)"
    using recv_all_ok [OF rx, of 8] l by (simp add: rxw)
  have size: "be64_to_host (load hdr) = (of_nat (length data) :: u64)"
    unfolding hdr_def using len by (rule read_header64)
  let ?w1 = "wr\<lparr>conn := ?s1, fs_log := fs_log wr @ [OpenWrite (c_str dst)],
                files := (files wr)(c_str dst \<mapsto> Regular [])\<rparr>"
  let ?buf = "replicate BUF_SIZE (CHR 0x00)"
  have body: "recv_file_encrypted wr dst = recv_chunks ?w1 (c_str dst) ?buf (of_nat (length data))"
    using recv_file_encrypted_body [OF r1 dst] by (simp only: size)
  have ok: "fst (recv_chunks ?w1 (c_str dst) ?buf (of_nat (length data)))"
    by (rule recv_chunks_ok) (use rx in \<open>simp_all add: consume_ok u\<close>)
  obtain w' where res: "recv_chunks ?w1 (c_str dst) ?buf (of_nat (length data)) = (True, w')"
    using ok by (cases "recv_chunks ?w1 (c_str dst) ?buf (of_nat (length data))") auto
  have f0: "files ?w1 (c_str dst) = Some (Regular [])" by simp
  from recv_chunks_prefix [OF res f0]
  have "files w' (c_str dst) = Some (Regular (map xor_char (take (length data) (map xor_char data @ rest))))"
    and "rx (conn w') = drop (length data) (map xor_char data @ rest)"
    by (auto simp add: u)
  then have "files w' (c_str dst) = Some (Regular data)" "rx (conn w') = rest"
    by (simp_all add: comp_def xor_char_involution)
  then show ?thesis
    using snd body res by (simp add: hdr_def)
qed

theorem bulk_round_trip_witness:
  "files \<lparr>conn = \<lparr>rx = [], rx_sched = [], tx = [], tx_sched = [5, 1, 2]\<rparr>,
          files = (\<lambda>p. if p = ''a.txt'' then Some (Regular ''hello'') else None),
          writable = (\<lambda>p. False), dirs = (\<lambda>p. None), fs_log = [], closed = False\<rparr> ''a.txt''
     = Some (Regular ''hello'')
   \<and> fst (recv_file_encrypted
        \<lparr>conn = \<lparr>rx = tx (conn (snd (send_file_encrypted
                 \<lparr>conn = \<lparr>rx = [], rx_sched = [], tx = [], tx_sched = [5, 1, 2]\<rparr>,
                  files = (\<lambda>p. if p = ''a.txt'' then Some (Regular ''hello'') else None),
                  writable = (\<lambda>p. False), dirs = (\<lambda>p. None), fs_log = [], closed = False\<rparr> ''a.txt''))),
                 rx_sched = [3, 3], tx = [], tx_sched = []\<rparr>,
         files = (\<lambda>p. None), writable = (\<lambda>p. True), dirs = (\<lambda>p. None), fs_log = [], closed = False\<rparr>
        ''b.txt'')
   \<and> files (snd (recv_file_encrypted
        \<lparr>conn = \<lparr>rx = tx (conn (snd (send_file_encrypted
                 \<lparr>conn = \<lparr>rx = [], rx_sched = [], tx = [], tx_sched = [5, 1, 2]\<rparr>,
                  files = (\<lambda>p. if p = ''a.txt'' then Some (Regular ''hello'') else None),
                  writable = (\<lambda>p. False), dirs = (\<lambda>p. None), fs_log = [], closed = False\<rparr> ''a.txt''))),
                 rx_sched = [3, 3], tx = [], tx_sched = []\<rparr>,
         files = (\<lambda>p. None), writable = (\<lambda>p. True), dirs = (\<lambda>p. None), fs_log = [], closed = False\<rparr>
        ''b.txt'')) ''b.txt'' = Some (Regular ''hello'')"
proof -
  let ?ws = "\<lparr>conn = \<lparr>rx = [], rx_sched = [], tx = [], tx_sched = [5, 1, 2]\<rparr>,
          files = (\<lambda>p. if p = ''a.txt'' then Some (Regular ''hello'') else None),
          writable = (\<lambda>p. False), dirs = (\<lambda>p. None), fs_log = [], closed = False\<rparr>"
  let ?wr = "\<lparr>conn = \<lparr>rx = tx (conn (snd (send_file_encrypted ?ws ''a.txt''))),
                 rx_sched = [3, 3], tx = [], tx_sched = []\<rparr>,
         files = (\<lambda>p. None), writable = (\<lambda>p. True), dirs = (\<lambda>p. None), fs_log = [], closed = False\<rparr>"
  have ca: "c_str ''a.txt'' = ''a.txt''" and cb: "c_str ''b.txt'' = ''b.txt''"
    by (simp_all add: c_str_def)
  have 0: "files ?ws ''a.txt'' = Some (Regular ''hello'')" by simp
  have 1: "files ?ws (c_str ''a.txt'') = Some (Regular ''hello'')" by (simp add: ca)
  have 2: "length ''hello'' < (2::nat) ^ 64" by simp
  have 3: "0 \<notin> set (tx_sched (conn ?ws))" by simp
  have 4: "0 \<notin> set (rx_sched (conn ?wr))" by simp
  have 5: "writable ?wr (c_str ''b.txt'')" by simp
  have 6: "rx (conn ?wr)
       = drop (length (tx (conn ?ws))) (tx (conn (snd (send_file_encrypted ?ws ''a.txt'')))) @ []"
    by simp
  show ?thesis
    using bulk_round_trip [OF 1 2 3 4 5 6] 0 unfolding cb by blast
qed

text \<open>
  Claim C8. Once the eight-byte header has announced \<open>N\<close> payload bytes and the
  destination is opened, \<open>recv_file_encrypted\<close> returns failure whenever fewer than \<open>N\<close>
  bytes are still to come on the stream, and more generally exactly when some chunk is
  not received in full (a read fails with an error, or the peer has closed). Whatever
  the kernel does, the destination then holds exactly the decoded chunks that were
  received in full before that: \<open>whole_chunks\<close> bytes, a multiple of \<open>BUF_SIZE\<close>, namely the
  largest multiple of \<open>BUF_SIZE\<close> within the bytes the receiver took off the stream.
  Nothing of it is removed or restored; on success all \<open>N\<close> bytes were taken and decoded. When no read fails with an error before the
  stream ends, these are all the whole chunks the stream delivered.
\<close>

theorem recv_file_truncated_stays:
  assumes hdr: "recv_all (conn w) 8 = (Some hdr, s1)" and dst: "writable w (c_str path)"
  shows "let N = unat (be64_to_host (load hdr));
             res = recv_file_encrypted w path;
             k = whole_chunks s1 N;
             taken = length (rx s1) - length (rx (conn (snd res)))
         in (length (rx s1) < N \<longrightarrow> \<not> fst res)
          \<and> (fst res \<longleftrightarrow> k = N)
          \<and> (fst res \<longrightarrow> taken = N)
          \<and> files (snd res) (c_str path) = Some (Regular (map xor_char (take k (rx s1))))
          \<and> k \<le> length (rx s1)
          \<and> (\<not> fst res \<longrightarrow> k < N \<and> k = BUF_SIZE * (taken div BUF_SIZE))
          \<and> (0 \<notin> set (rx_sched s1) \<and> length (rx s1) < N \<longrightarrow>
                k = BUF_SIZE * (length (rx s1) div BUF_SIZE))"
proof -
  let ?w1 = "w\<lparr>conn := s1, fs_log := fs_log w @ [OpenWrite (c_str path)],
               files := (files w)(c_str path \<mapsto> Regular [])\<rparr>"
  let ?buf = "replicate BUF_SIZE (CHR 0x00)"
  let ?left = "be64_to_host (load hdr)"
  let ?k = "whole_chunks s1 (unat ?left)"
  note body = recv_file_encrypted_body [OF hdr dst]
  obtain ok w' where res: "recv_chunks ?w1 (c_str path) ?buf ?left = (ok, w')" by force
  have f0: "files ?w1 (c_str path) = Some (Regular [])" by simp
  have c1: "conn ?w1 = s1" by simp
  from recv_chunks_prefix [OF res f0, unfolded c1]
  obtain c where k: "?k + c \<le> length (rx s1)"
    "files w' (c_str path) = Some (Regular (map xor_char (take ?k (rx s1))))"
    "rx (conn w') = drop (?k + c) (rx s1)"
    "ok \<longrightarrow> ?k = unat ?left \<and> c = 0"
    "\<not> ok \<longrightarrow> ?k + c < unat ?left \<and> BUF_SIZE dvd ?k \<and> c < BUF_SIZE"
    by auto
  have r: "fst (recv_file_encrypted w path) = ok" "snd (recv_file_encrypted w path) = w'"
    by (simp_all add: body res)
  have tk: "length (rx s1) - length (rx (conn w')) = ?k + c"
    using k(1) by (simp add: k(3))
  have a: "\<not> ok" if "length (rx s1) < unat ?left" using that k(1,4) by auto
  have b: "ok \<longleftrightarrow> ?k = unat ?left" using k(4,5) by auto
  have b': "?k + c = unat ?left" if ok using that k(4) by simp
  have d: "?k < unat ?left \<and> ?k = BUF_SIZE * ((?k + c) div BUF_SIZE)" if nok: "\<not> ok"
  proof -
    have dv: "BUF_SIZE dvd ?k" and cb: "c < BUF_SIZE" and lt: "?k + c < unat ?left"
      using nok k(5) by simp_all
    obtain q where q: "?k = BUF_SIZE * q" using dv by (auto simp add: dvd_def)
    have "(BUF_SIZE * q + c) div BUF_SIZE = q" using cb by simp
    then have "?k = BUF_SIZE * ((?k + c) div BUF_SIZE)" using q by simp
    then show ?thesis using lt by linarith
  qed
  have e: "?k = BUF_SIZE * (length (rx s1) div BUF_SIZE)"
    if h: "0 \<notin> set (rx_sched s1)" and sh: "length (rx s1) < unat ?left"
  proof -
    have "files (snd (recv_chunks ?w1 (c_str path) ?buf ?left)) (c_str path)
        = Some (Regular ([] @ map xor_char (take (BUF_SIZE * (length (rx s1) div BUF_SIZE)) (rx s1))))"
      using recv_chunks_short [of ?w1 ?left "c_str path" "[]" ?buf] h sh by simp
    then have "map xor_char (take ?k (rx s1))
        = map xor_char (take (BUF_SIZE * (length (rx s1) div BUF_SIZE)) (rx s1))"
      using k(2) by (simp add: res)
    then have "length (take ?k (rx s1))
        = length (take (BUF_SIZE * (length (rx s1) div BUF_SIZE)) (rx s1))"
      using map_eq_imp_length_eq by blast
    moreover have "BUF_SIZE * (length (rx s1) div BUF_SIZE) \<le> length (rx s1)" by simp
    ultimately show ?thesis using k(1) by simp
  qed
  show ?thesis
    unfolding Let_def r tk using a b b' d e k(1,2) by auto
qed

theorem recv_file_truncated_stays_witness:
  "recv_all (conn \<lparr>conn = \<lparr>rx = be_bytes 8 (2 * BUF_SIZE) @ replicate BUF_SIZE (CHR ''x'')
                                   @ replicate BUF_SIZE (CHR ''y''),
                            rx_sched = [8, BUF_SIZE, 0], tx = [], tx_sched = []\<rparr>,
                    files = (\<lambda>p. None), writable = (\<lambda>p. True), dirs = (\<lambda>p. None),
                    fs_log = [], closed = False\<rparr>) 8
     = (Some (be_bytes 8 (2 * BUF_SIZE)),
        \<lparr>rx = replicate BUF_SIZE (CHR ''x'') @ replicate BUF_SIZE (CHR ''y''),
         rx_sched = [BUF_SIZE, 0], tx = [], tx_sched = []\<rparr>)
   \<and> unat (be64_to_host (load (be_bytes 8 (2 * BUF_SIZE)))) = 2 * BUF_SIZE
   \<and> \<not> fst (recv_file_encrypted
              \<lparr>conn = \<lparr>rx = be_bytes 8 (2 * BUF_SIZE) @ replicate BUF_SIZE (CHR ''x'')
                             @ replicate BUF_SIZE (CHR ''y''),
                       rx_sched = [8, BUF_SIZE, 0], tx = [], tx_sched = []\<rparr>,
               files = (\<lambda>p. None), writable = (\<lambda>p. True), dirs = (\<lambda>p. None),
               fs_log = [], closed = False\<rparr> ''up.bin'')
   \<and> files (snd (recv_file_encrypted
              \<lparr>conn = \<lparr>rx = be_bytes 8 (2 * BUF_SIZE) @ replicate BUF_SIZE (CHR ''x'')
                             @ replicate BUF_SIZE (CHR ''y''),
                       rx_sched = [8, BUF_SIZE, 0], tx = [], tx_sched = []\<rparr>,
               files = (\<lambda>p. None), writable = (\<lambda>p. True), dirs = (\<lambda>p. None),
               fs_log = [], closed = False\<rparr> ''up.bin'')) ''up.bin''
       = Some (Regular (replicate BUF_SIZE (xor_char (CHR ''x''))))
   \<and> \<not> fst (recv_file_encrypted
              \<lparr>conn = \<lparr>rx = be_bytes 8 (2 * BUF_SIZE) @ replicate BUF_SIZE (CHR ''x'') @ ''abc'',
                       rx_sched = [], tx = [], tx_sched = []\<rparr>,
               files = (\<lambda>p. None), writable = (\<lambda>p. True), dirs = (\<lambda>p. None),
               fs_log = [], closed = False\<rparr> ''up.bin'')
   \<and> files (snd (recv_file_encrypted
              \<lparr>conn = \<lparr>rx = be_bytes 8 (2 * BUF_SIZE) @ replicate BUF_SIZE (CHR ''x'') @ ''abc'',
                       rx_sched = [], tx = [], tx_sched = []\<rparr>,
               files = (\<lambda>p. None), writable = (\<lambda>p. True), dirs = (\<lambda>p. None),
               fs_log = [], closed = False\<rparr> ''up.bin'')) ''up.bin''
       = Some (Regular (replicate BUF_SIZE (xor_char (CHR ''x''))))"
proof -
  define xs where "xs = replicate BUF_SIZE (CHR ''x'')"
  define ys where "ys = replicate BUF_SIZE (CHR ''y'')"
  define hdr where "hdr = be_bytes 8 (2 * BUF_SIZE)"
  define N where "N = 2 * BUF_SIZE"
  have cu: "c_str ''up.bin'' = ''up.bin''" by (simp add: c_str_def)
  have n: "2 * BUF_SIZE < (2::nat) ^ 64" by (simp add: BUF_SIZE_def)
  have lx: "length xs = BUF_SIZE" "length ys = BUF_SIZE" by (simp_all add: xs_def ys_def)
  have lh: "length hdr = 8" by (simp add: hdr_def)
  have "unat (of_nat (2 * BUF_SIZE) :: u64) = 2 * BUF_SIZE"
    using n by (simp only: unat_of_nat) simp
  then have un: "unat (be64_to_host (load hdr)) = N"
    unfolding hdr_def N_def by (simp only: read_header64 [OF n])
  have mn: "min BUF_SIZE N = BUF_SIZE" "0 < N" "N - BUF_SIZE = BUF_SIZE" "BUF_SIZE < N"
    using BUF_SIZE_pos by (simp_all add: N_def)
  have mx: "map xor_char xs = replicate BUF_SIZE (xor_char (CHR ''x''))"
    by (simp only: xs_def map_replicate)
  txt \<open>A read error after the first chunk, with all the payload in flight.\<close>
  let ?s0 = "\<lparr>rx = hdr @ xs @ ys, rx_sched = [8, BUF_SIZE, 0], tx = [], tx_sched = []\<rparr>"
  let ?s1 = "\<lparr>rx = xs @ ys, rx_sched = [BUF_SIZE, 0], tx = [], tx_sched = []\<rparr>"
  let ?s2 = "\<lparr>rx = ys, rx_sched = [0], tx = [], tx_sched = []\<rparr>"
  let ?s3 = "\<lparr>rx = ys, rx_sched = [], tx = [], tx_sched = []\<rparr>"
  let ?w = "\<lparr>conn = ?s0, files = (\<lambda>p. None), writable = (\<lambda>p. True), dirs = (\<lambda>p. None),
             fs_log = [], closed = False\<rparr>"
  have 1: "recv_all (conn ?w) 8 = (Some hdr, ?s1)"
    using recv_all_one_call [of "conn ?w" 8 "[BUF_SIZE, 0]" 8] lh by simp
  have 2: "writable ?w (c_str ''up.bin'')" by simp
  have c1: "recv_all ?s1 BUF_SIZE = (Some xs, ?s2)"
    using recv_all_one_call [of ?s1 BUF_SIZE "[0]" BUF_SIZE] lx BUF_SIZE_pos by simp
  have c2: "recv_all ?s2 BUF_SIZE = (None, ?s3)"
    using recv_all_failing_call [of ?s2 "[]" BUF_SIZE] BUF_SIZE_pos by simp
  have "whole_chunks ?s2 BUF_SIZE = 0"
    using whole_chunks_step [OF BUF_SIZE_pos, of ?s2] by (simp add: c2)
  then have wc: "whole_chunks ?s1 N = BUF_SIZE"
    using whole_chunks_step [OF mn(2), of ?s1] by (simp add: mn c1)
  have tx: "take BUF_SIZE (rx ?s1) = xs" using lx by simp
  have A: "\<not> fst (recv_file_encrypted ?w ''up.bin'')
      \<and> files (snd (recv_file_encrypted ?w ''up.bin'')) ''up.bin''
           = Some (Regular (replicate BUF_SIZE (xor_char (CHR ''x''))))"
    using recv_file_truncated_stays [OF 1 2] mn(4)
    unfolding Let_def un wc tx mx cu by simp
  txt \<open>The peer closes three bytes into the second chunk.\<close>
  let ?t0 = "\<lparr>rx = hdr @ xs @ ''abc'', rx_sched = [], tx = [], tx_sched = []\<rparr>"
  let ?t1 = "\<lparr>rx = xs @ ''abc'', rx_sched = [], tx = [], tx_sched = []\<rparr>"
  let ?v = "\<lparr>conn = ?t0, files = (\<lambda>p. None), writable = (\<lambda>p. True), dirs = (\<lambda>p. None),
             fs_log = [], closed = False\<rparr>"
  have 3: "recv_all (conn ?v) 8 = (Some hdr, ?t1)"
    using recv_all_ok [of "conn ?v" 8] lh by simp
  have 4: "writable ?v (c_str ''up.bin'')" by simp
  have lt: "length (rx ?t1) = BUF_SIZE + 3" using lx by simp
  have sh: "length (rx ?t1) < N" unfolding lt N_def by (simp add: BUF_SIZE_def)
  have hl: "0 \<notin> set (rx_sched ?t1)" by simp
  have dv: "(BUF_SIZE + 3) div BUF_SIZE = 1" by (simp add: BUF_SIZE_def)
  have wk: "whole_chunks ?t1 N = BUF_SIZE"
    using recv_file_truncated_stays [OF 3 4] sh hl
    unfolding Let_def un lt dv by simp
  have ty: "take BUF_SIZE (rx ?t1) = xs" using lx by simp
  have B: "\<not> fst (recv_file_encrypted ?v ''up.bin'')
      \<and> files (snd (recv_file_encrypted ?v ''up.bin'')) ''up.bin''
           = Some (Regular (replicate BUF_SIZE (xor_char (CHR ''x''))))"
    using recv_file_truncated_stays [OF 3 4] sh
    unfolding Let_def un wk ty mx cu by simp
  have "recv_all (conn ?w) 8 = (Some hdr, ?s1)
     \<and> unat (be64_to_host (load hdr)) = 2 * BUF_SIZE
     \<and> \<not> fst (recv_file_encrypted ?w ''up.bin'')
     \<and> files (snd (recv_file_encrypted ?w ''up.bin'')) ''up.bin''
         = Some (Regular (replicate BUF_SIZE (xor_char (CHR ''x''))))
     \<and> \<not> fst (recv_file_encrypted ?v ''up.bin'')
     \<and> files (snd (recv_file_encrypted ?v ''up.bin'')) ''up.bin''
         = Some (Regular (replicate BUF_SIZE (xor_char (CHR ''x''))))"
    using 1 un A B unfolding N_def by blast
  then show ?thesis unfolding xs_def ys_def hdr_def .
qed

section \<open>Session protocol: commands\<close>

lemma reply_ok:
  "0 \<notin> set (tx_sched (conn w)) \<Longrightarrow>
   reply w str = w\<lparr>conn := (conn w)\<lparr>tx := tx (conn w) @ frame str,
                       tx_sched := consume (consume (tx_sched (conn w)) 4) (length str)\<rparr>\<rparr>"
  by (simp add: reply_def send_line_ok frame_def)

lemma reply_healthy:
  "0 \<notin> set (tx_sched (conn w)) \<Longrightarrow> 0 \<notin> set (tx_sched (conn (reply w str)))"
  by (simp add: reply_ok consume_ok)

lemma find_str_None: "find_str pat s = None \<longleftrightarrow> \<not> (\<exists>a b. s = a @ pat @ b)"
proof (induction s)
  case Nil
  then show ?case by simp
next
  case (Cons x xs)
  have "(\<exists>a b. x # xs = a @ pat @ b)
      \<longleftrightarrow> take (length pat) (x # xs) = pat \<or> (\<exists>a b. xs = a @ pat @ b)"
  proof
    assume "\<exists>a b. x # xs = a @ pat @ b"
    then obtain a b where ab: "x # xs = a @ pat @ b" by blast
    show "take (length pat) (x # xs) = pat \<or> (\<exists>a b. xs = a @ pat @ b)"
    proof (cases a)
      case Nil
      then show ?thesis using ab by simp
    next
      case (Cons y ys)
      then have "xs = ys @ pat @ b" using ab by simp
      then show ?thesis by blast
    qed
  next
    assume "take (length pat) (x # xs) = pat \<or> (\<exists>a b. xs = a @ pat @ b)"
    then show "\<exists>a b. x # xs = a @ pat @ b"
    proof
      assume "take (length pat) (x # xs) = pat"
      then have "x # xs = [] @ pat @ drop (length pat) (x # xs)"
        by (metis append_Nil append_take_drop_id)
      then show ?thesis by blast
    next
      assume "\<exists>a b. xs = a @ pat @ b"
      then obtain a b where "xs = a @ pat @ b" by blast
      then have "x # xs = (x # a) @ pat @ b" by simp
      then show ?thesis by blast
    qed
  qed
  then show ?case using Cons by simp
qed

lemma safe_filename_iff:
  "safe_filename name \<longleftrightarrow>
     name \<noteq> [] \<and> \<not> (\<exists>a b. name = a @ ''..'' @ b) \<and> CHR ''/'' \<notin> set name \<and> CHR 0x5C \<notin> set name"
  unfolding safe_filename_def find_str_None find_char_None ..

lemma list_entries_eq:
  "list_entries oss ns = oss @ concat (map (\<lambda>n. n @ [CHR 0x0A]) (listed ns))"
  by (induction ns arbitrary: oss) (simp_all add: listed_def)

lemma getlines_line:
  "CHR 0x0A \<notin> set n \<Longrightarrow> getlines cur (n @ CHR 0x0A # rest) = (rev cur @ n) # getlines [] rest"
  by (induction n arbitrary: cur) auto

lemma getlines_listing:
  "\<forall>n\<in>set ns. CHR 0x0A \<notin> set n \<Longrightarrow> getlines [] (concat (map (\<lambda>n. n @ [CHR 0x0A]) ns)) = ns"
  by (induction ns) (simp_all add: getlines_line)

lemma command_loop_continue:
  "command_step w = (True, w') \<Longrightarrow> command_loop w = command_loop w'"
  by (subst command_loop.simps) simp

lemma recv_line_frame:
  assumes "0 \<notin> set (rx_sched s)" and "rx s = frame str @ rest" and "length str < 2 ^ 32"
  shows "recv_line s =
           (Some str, s\<lparr>rx := rest, rx_sched := consume (consume (rx_sched s) 4) (length str)\<rparr>)"
proof -
  have "rx s = be_bytes 4 (length str) @ (str @ rest)"
    using assms(2,3) by (simp add: frame_def)
  from recv_line_ok [OF assms(1) this assms(3)] show ?thesis by simp
qed

text \<open>
  Claim C6. When the frame read by the command loop is a \<open>GET\<close> or \<open>PUT\<close> command
  whose filename argument (the second word of the frame) is empty or contains \<open>..\<close>,
  \<open>/\<close> or a backslash, the server sends the frame \<open>ERR BadName\<close> and nothing else,
  opens no file or directory (the log of file-system accesses and the files are
  unchanged), and the loop goes on with the next frame.
\<close>

theorem bad_filename_rejected:
  assumes line: "fst (recv_line (conn w)) = Some line"
    and cmd: "fst (extract_word line) = ''GET'' \<or> fst (extract_word line) = ''PUT''"
    and name: "name = fst (extract_word (snd (extract_word line)))"
    and bad: "name = [] \<or> (\<exists>a b. name = a @ ''..'' @ b) \<or> CHR ''/'' \<in> set name \<or> CHR 0x5C \<in> set name"
    and tx: "0 \<notin> set (tx_sched (conn w))"
  shows "fst (command_step w)
     \<and> tx (conn (snd (command_step w))) = tx (conn w) @ frame ''ERR BadName''
     \<and> rx (conn (snd (command_step w))) = rx (snd (recv_line (conn w)))
     \<and> fs_log (snd (command_step w)) = fs_log w
     \<and> files (snd (command_step w)) = files w
     \<and> command_loop w = command_loop (snd (command_step w))"
proof -
  obtain s1 where rl: "recv_line (conn w) = (Some line, s1)"
    using line by (cases "recv_line (conn w)") auto
  let ?w1 = "w\<lparr>conn := s1\<rparr>"
  have unsafe: "\<not> safe_filename (fst (extract_word (snd (extract_word line))))"
    using bad unfolding safe_filename_iff name by blast
  have step: "command_step w = (True, reply ?w1 ''ERR BadName'')"
    using cmd unsafe by (auto simp add: command_step_def rl Let_def)
  have tx1: "0 \<notin> set (tx_sched (conn ?w1))" "tx (conn ?w1) = tx (conn w)"
    using recv_line_Some(2,3) [OF rl] tx by simp_all
  have "reply ?w1 ''ERR BadName''
      = ?w1\<lparr>conn := (conn ?w1)\<lparr>tx := tx (conn ?w1) @ frame ''ERR BadName'',
                       tx_sched := consume (consume (tx_sched (conn ?w1)) 4) (length ''ERR BadName'')\<rparr>\<rparr>"
    using tx1(1) by (rule reply_ok)
  then show ?thesis
    using command_loop_continue [OF step] tx1(2) by (simp add: step rl)
qed

lemma server_with_simps [simp]:
  "rx (conn (server_with input fs entries)) = input"
  "rx_sched (conn (server_with input fs entries)) = []"
  "tx (conn (server_with input fs entries)) = []"
  "tx_sched (conn (server_with input fs entries)) = []"
  "files (server_with input fs entries) = fs"
  "fs_log (server_with input fs entries) = []"
  "dirs (server_with input fs entries) ROOT_DIR = entries"
  by (simp_all add: server_with_def sock_with_def)

lemma server_with_first_frame:
  "length str < 2 ^ 32 \<Longrightarrow>
   fst (recv_line (conn (server_with (frame str @ rest) fs entries))) = Some str
   \<and> rx (snd (recv_line (conn (server_with (frame str @ rest) fs entries)))) = rest"
  using recv_line_frame [of "conn (server_with (frame str @ rest) fs entries)" str rest]
  by simp

theorem bad_filename_rejected_witness:
  "fst (recv_line (conn (server_with (frame ''GET ../../etc/passwd'' @ frame ''QUIT'') (\<lambda>p. None) None)))
     = Some ''GET ../../etc/passwd''
   \<and> fst (command_step (server_with (frame ''GET ../../etc/passwd'' @ frame ''QUIT'') (\<lambda>p. None) None))
   \<and> tx (conn (snd (command_step
         (server_with (frame ''GET ../../etc/passwd'' @ frame ''QUIT'') (\<lambda>p. None) None))))
       = frame ''ERR BadName''
   \<and> rx (conn (snd (command_step
         (server_with (frame ''GET ../../etc/passwd'' @ frame ''QUIT'') (\<lambda>p. None) None))))
       = frame ''QUIT''
   \<and> fs_log (snd (command_step
         (server_with (frame ''GET ../../etc/passwd'' @ frame ''QUIT'') (\<lambda>p. None) None))) = []"
proof -
  let ?w = "server_with (frame ''GET ../../etc/passwd'' @ frame ''QUIT'') (\<lambda>p. None) None"
  have f: "fst (recv_line (conn ?w)) = Some ''GET ../../etc/passwd''"
    "rx (snd (recv_line (conn ?w))) = frame ''QUIT''"
    using server_with_first_frame [of "''GET ../../etc/passwd''" "frame ''QUIT''" "\<lambda>p. None" None]
    by simp_all
  have c: "fst (extract_word ''GET ../../etc/passwd'') = ''GET''
         \<or> fst (extract_word ''GET ../../etc/passwd'') = ''PUT''"
    by (simp add: extract_word_def isspace_def)
  have n: "''../../etc/passwd'' = fst (extract_word (snd (extract_word ''GET ../../etc/passwd'')))"
    by (simp add: extract_word_def isspace_def)
  have b: "''../../etc/passwd'' = [] \<or> (\<exists>a b. ''../../etc/passwd'' = a @ ''..'' @ b)
         \<or> CHR ''/'' \<in> set ''../../etc/passwd'' \<or> CHR 0x5C \<in> set ''../../etc/passwd''"
    by simp
  have t: "0 \<notin> set (tx_sched (conn ?w))" by simp
  show ?thesis
    using bad_filename_rejected [OF f(1) c n b t] f by simp
qed

lemma reply_tx:
  "0 \<notin> set (tx_sched (conn w)) \<Longrightarrow> tx (conn (reply w str)) = tx (conn w) @ frame str"
  by (simp add: reply_ok)

lemma reply_fields [simp]:
  "files (reply w str) = files w" "fs_log (reply w str) = fs_log w" "dirs (reply w str) = dirs w"
  "writable (reply w str) = writable w" "closed (reply w str) = closed w"
  by (simp_all add: reply_def)

lemma reply_rx_sched: "rx_sched (conn (reply w str)) = rx_sched (conn w)"
  using send_line_frame [of "conn w" str] by (cases "send_line (conn w) str") (simp add: reply_def)

text \<open>
  Claim C7. On a \<open>LIST\<close> command the server sends the frame \<open>OK\<close> and then exactly one
  data frame, and the loop goes on. When the shared root cannot be opened the data frame
  is the text \<open>ERR: cannot open server_files\<close> with a newline. Otherwise it is the
  concatenation, in directory order, of every entry other than \<open>.\<close>, \<open>..\<close> and
  \<open>uploads\<close>, each followed by a newline; and when no name contains a newline, the lines
  of the payload are exactly these entries.
\<close>

theorem list_response:
  assumes line: "fst (recv_line (conn w)) = Some line"
    and cmd: "fst (extract_word line) = ''LIST''"
    and tx: "0 \<notin> set (tx_sched (conn w))"
  shows "fst (command_step w)
     \<and> (dirs w ROOT_DIR = None \<longrightarrow>
          tx (conn (snd (command_step w)))
            = tx (conn w) @ frame ''OK'' @ frame (''ERR: cannot open server_files'' @ [CHR 0x0A]))
     \<and> (\<forall>entries. dirs w ROOT_DIR = Some entries \<longrightarrow>
          tx (conn (snd (command_step w)))
            = tx (conn w) @ frame ''OK'' @ frame (concat (map (\<lambda>n. n @ [CHR 0x0A]) (listed entries)))
          \<and> set (listed entries) = set entries - {''.'', ''..'', ''uploads''}
          \<and> ((\<forall>n\<in>set entries. CHR 0x0A \<notin> set n) \<longrightarrow>
                getlines [] (concat (map (\<lambda>n. n @ [CHR 0x0A]) (listed entries))) = listed entries))"
proof -
  obtain s1 where rl: "recv_line (conn w) = (Some line, s1)"
    using line by (cases "recv_line (conn w)") auto
  let ?w1 = "w\<lparr>conn := s1\<rparr>"
  obtain data w2 where lf: "list_files ?w1 = (data, w2)" by force
  have w2: "w2 = ?w1\<lparr>fs_log := fs_log w @ [OpenDir ROOT_DIR]\<rparr>"
    using lf by (auto simp add: list_files_def Let_def split: option.splits)
  have data: "data = (case dirs w ROOT_DIR of
        None \<Rightarrow> ''ERR: cannot open server_files'' @ [CHR 0x0A]
      | Some entries \<Rightarrow> concat (map (\<lambda>n. n @ [CHR 0x0A]) (listed entries)))"
    using lf by (auto simp add: list_files_def Let_def list_entries_eq split: option.splits)
  have step: "command_step w = (True, reply (reply w2 ''OK'') data)"
    using cmd lf by (simp add: command_step_def rl Let_def)
  have tx2: "0 \<notin> set (tx_sched (conn w2))" "tx (conn w2) = tx (conn w)"
    using recv_line_Some(2,3) [OF rl] tx by (simp_all add: w2)
  have "tx (conn (reply (reply w2 ''OK'') data)) = tx (conn w) @ frame ''OK'' @ frame data"
    using tx2 by (simp add: reply_tx reply_healthy)
  then have t: "tx (conn (snd (command_step w))) = tx (conn w) @ frame ''OK'' @ frame data"
    by (simp add: step)
  have l: "getlines [] (concat (map (\<lambda>n. n @ [CHR 0x0A]) (listed entries))) = listed entries"
    if "\<forall>n\<in>set entries. CHR 0x0A \<notin> set n" for entries
    using that by (intro getlines_listing) (simp add: listed_def)
  have s: "set (listed entries) = set entries - {''.'', ''..'', ''uploads''}" for entries
    by (auto simp add: listed_def)
  show ?thesis
    using t l s by (auto simp add: step data)
qed

theorem list_response_witness:
  "fst (recv_line (conn (server_with (frame ''LIST'') (\<lambda>p. None)
          (Some [''.'', ''..'', ''a.txt'', ''uploads'', ''b.bin''])))) = Some ''LIST''
   \<and> fst (command_step (server_with (frame ''LIST'') (\<lambda>p. None)
          (Some [''.'', ''..'', ''a.txt'', ''uploads'', ''b.bin''])))
   \<and> tx (conn (snd (command_step (server_with (frame ''LIST'') (\<lambda>p. None)
          (Some [''.'', ''..'', ''a.txt'', ''uploads'', ''b.bin''])))))
       = frame ''OK'' @ frame (''a.txt'' @ [CHR 0x0A] @ ''b.bin'' @ [CHR 0x0A])
   \<and> getlines [] (''a.txt'' @ [CHR 0x0A] @ ''b.bin'' @ [CHR 0x0A]) = [''a.txt'', ''b.bin'']
   \<and> tx (conn (snd (command_step (server_with (frame ''LIST'') (\<lambda>p. None) None))))
       = frame ''OK'' @ frame (''ERR: cannot open server_files'' @ [CHR 0x0A])"
proof -
  let ?es = "[''.'', ''..'', ''a.txt'', ''uploads'', ''b.bin'']"
  let ?w = "server_with (frame ''LIST'') (\<lambda>p. None) (Some ?es)"
  let ?v = "server_with (frame ''LIST'') (\<lambda>p. None) None"
  have f: "fst (recv_line (conn ?w)) = Some ''LIST''" "fst (recv_line (conn ?v)) = Some ''LIST''"
    using server_with_first_frame [of "''LIST''" "[]"] by simp_all
  have c: "fst (extract_word ''LIST'') = ''LIST''"
    by (simp add: extract_word_def isspace_def)
  have t: "0 \<notin> set (tx_sched (conn ?w))" "0 \<notin> set (tx_sched (conn ?v))" by simp_all
  have l: "listed ?es = [''a.txt'', ''b.bin'']" by (simp add: listed_def)
  have n: "\<forall>n\<in>set ?es. CHR 0x0A \<notin> set n" by simp
  have dw: "dirs ?w ROOT_DIR = Some ?es" and dv: "dirs ?v ROOT_DIR = None" by simp_all
  from list_response [OF f(1) c t(1)] dw n
  have "fst (command_step ?w)"
    and "tx (conn (snd (command_step ?w)))
       = tx (conn ?w) @ frame ''OK'' @ frame (concat (map (\<lambda>n. n @ [CHR 0x0A]) (listed ?es)))"
    and "getlines [] (concat (map (\<lambda>n. n @ [CHR 0x0A]) (listed ?es))) = listed ?es"
    by blast+
  moreover from list_response [OF f(2) c t(2)] dv
  have "tx (conn (snd (command_step ?v)))
       = tx (conn ?v) @ frame ''OK'' @ frame (''ERR: cannot open server_files'' @ [CHR 0x0A])"
    by blast
  ultimately show ?thesis using f(1) by (simp add: l)
qed

lemma command_step_get:
  assumes line: "fst (recv_line (conn w)) = Some line"
    and cmd: "fst (extract_word line) = ''GET''"
    and name: "name = fst (extract_word (snd (extract_word line)))"
    and safe: "name \<noteq> []" "\<not> (\<exists>a b. name = a @ ''..'' @ b)" "CHR ''/'' \<notin> set name"
      "CHR 0x5C \<notin> set name"
    and tx: "0 \<notin> set (tx_sched (conn w))"
  shows "(files w (c_str (ROOT_DIR @ ''/'' @ name)) = None \<longrightarrow>
            fst (command_step w)
          \<and> tx (conn (snd (command_step w))) = tx (conn w) @ frame ''ERR NotFound'')
     \<and> (\<forall>node. files w (c_str (ROOT_DIR @ ''/'' @ name)) = Some node \<longrightarrow>
            fst (command_step w)
          \<and> tx (conn (snd (command_step w)))
              = tx (conn w) @ frame ''OK'' @ be_bytes 8 (unat (tell_end node))
                  @ map xor_char (stream_bytes node))"
proof -
  obtain s1 where rl: "recv_line (conn w) = (Some line, s1)"
    using line by (cases "recv_line (conn w)") auto
  let ?path = "ROOT_DIR @ ''/'' @ name"
  let ?w2 = "w\<lparr>conn := s1, fs_log := fs_log w @ [OpenRead (c_str ?path)]\<rparr>"
  have ok: "safe_filename (fst (extract_word (snd (extract_word line))))"
    using safe unfolding safe_filename_iff name by blast
  have tx2: "0 \<notin> set (tx_sched (conn ?w2))" "tx (conn ?w2) = tx (conn w)"
    using recv_line_Some(2,3) [OF rl] tx by simp_all
  have a: "fst (command_step w)
          \<and> tx (conn (snd (command_step w))) = tx (conn w) @ frame ''ERR NotFound''"
    if "files w (c_str ?path) = None"
  proof -
    have "command_step w = (True, reply ?w2 ''ERR NotFound'')"
      using cmd ok that by (simp add: command_step_def open_read_def rl Let_def name)
    then show ?thesis using tx2 by (simp add: reply_tx)
  qed
  have b: "fst (command_step w)
          \<and> tx (conn (snd (command_step w)))
              = tx (conn w) @ frame ''OK'' @ be_bytes 8 (unat (tell_end node))
                  @ map xor_char (stream_bytes node)"
    if "files w (c_str ?path) = Some node" for node
  proof -
    let ?w3 = "reply ?w2 ''OK''"
    have step: "command_step w = send_file_encrypted ?w3 ?path"
      using cmd ok that by (simp add: command_step_def open_read_def rl Let_def name)
    have h3: "0 \<notin> set (tx_sched (conn ?w3))" using tx2(1) by (rule reply_healthy)
    have f3: "files ?w3 (c_str ?path) = Some node" using that by simp
    have t3: "tx (conn ?w3) = tx (conn w) @ frame ''OK''"
      using tx2 by (simp add: reply_tx)
    from send_file_encrypted_ok [OF h3 f3] obtain ks where
      "send_file_encrypted ?w3 ?path =
         (True, ?w3\<lparr>conn := (conn ?w3)\<lparr>tx := tx (conn ?w3) @ be_bytes 8 (unat (tell_end node))
                                           @ map xor_char (stream_bytes node),
                                   tx_sched := ks\<rparr>,
                   fs_log := fs_log ?w3 @ [OpenRead (c_str ?path)]\<rparr>)"
      by blast
    then show ?thesis unfolding step using t3 by simp
  qed
  show ?thesis using a b by blast
qed

text \<open>
  Claim C9. On a \<open>GET\<close> command with a safe filename the server is to send
  \<open>ERR NotFound\<close> when the path under the shared root is not a regular readable file,
  and otherwise \<open>OK\<close> and the file with its size ahead. The code sends \<open>ERR NotFound\<close>
  only when the \<open>ifstream\<close> on the path does not open, and a directory opens. So for
  \<open>GET uploads\<close>, which names the directory \<open>server_files/uploads\<close> that \<open>ensure_dirs\<close>
  creates and which \<open>safe_filename\<close> accepts, the server does not send \<open>ERR NotFound\<close>:
  it sends \<open>OK\<close>, then the eight bytes of the offset \<open>tellg\<close> reports for the directory
  (here \<open>2 ^ 63 - 1\<close>) as the declared length, then no payload, and stays in the loop.
\<close>

theorem get_directory_not_rejected:
  "safe_filename ''uploads''
   \<and> fst (command_step (server_with (frame ''GET uploads'')
            (\<lambda>p. if p = ''server_files/uploads'' then Some (Directory 0x7FFFFFFFFFFFFFFF) else None)
            (Some [''.'', ''..'', ''uploads''])))
   \<and> tx (conn (snd (command_step (server_with (frame ''GET uploads'')
            (\<lambda>p. if p = ''server_files/uploads'' then Some (Directory 0x7FFFFFFFFFFFFFFF) else None)
            (Some [''.'', ''..'', ''uploads''])))))
       = frame ''OK'' @ [CHR 0x7F, CHR 0xFF, CHR 0xFF, CHR 0xFF, CHR 0xFF, CHR 0xFF, CHR 0xFF, CHR 0xFF]
   \<and> tx (conn (snd (command_step (server_with (frame ''GET uploads'')
            (\<lambda>p. if p = ''server_files/uploads'' then Some (Directory 0x7FFFFFFFFFFFFFFF) else None)
            (Some [''.'', ''..'', ''uploads''])))))
       \<noteq> frame ''ERR NotFound''"
proof -
  let ?fs = "\<lambda>p. if p = ''server_files/uploads'' then Some (Directory 0x7FFFFFFFFFFFFFFF) else None"
  let ?w = "server_with (frame ''GET uploads'') ?fs (Some [''.'', ''..'', ''uploads''])"
  let ?size = "[CHR 0x7F, CHR 0xFF, CHR 0xFF, CHR 0xFF, CHR 0xFF, CHR 0xFF, CHR 0xFF, CHR 0xFF]"
  have sf: "safe_filename ''uploads''" by (simp add: safe_filename_def)
  have f: "fst (recv_line (conn ?w)) = Some ''GET uploads''"
    using server_with_first_frame [of "''GET uploads''" "[]"] by simp
  have c: "fst (extract_word ''GET uploads'') = ''GET''"
    by (simp add: extract_word_def isspace_def)
  have n: "''uploads'' = fst (extract_word (snd (extract_word ''GET uploads'')))"
    by (simp add: extract_word_def isspace_def)
  have s: "''uploads'' \<noteq> []" "\<not> (\<exists>a b. ''uploads'' = a @ ''..'' @ b)" "CHR ''/'' \<notin> set ''uploads''"
    "CHR 0x5C \<notin> set ''uploads''"
    using safe_filename_iff [of "''uploads''"] sf by simp_all
  have t: "0 \<notin> set (tx_sched (conn ?w))" by simp
  have p: "files ?w (c_str (ROOT_DIR @ ''/'' @ ''uploads'')) = Some (Directory 0x7FFFFFFFFFFFFFFF)"
    by (simp add: ROOT_DIR_def c_str_def)
  have b: "be_bytes 8 (unat (tell_end (Directory 0x7FFFFFFFFFFFFFFF))) = ?size"
    by code_simp
  from command_step_get [OF f c n s t] p
  have r: "fst (command_step ?w)"
    "tx (conn (snd (command_step ?w))) = frame ''OK'' @ ?size"
    unfolding b [symmetric] by auto
  have "length (frame ''OK'' @ ?size) \<noteq> length (frame ''ERR NotFound'')"
    by (simp add: frame_def)
  then have "frame ''OK'' @ ?size \<noteq> frame ''ERR NotFound''" by metis
  then show ?thesis using sf r by simp
qed

section \<open>Session protocol: authentication\<close>

lemma check_auth_eq:
  "check_auth w user pass
     = (credentials_ok (files w) user pass, w\<lparr>fs_log := fs_log w @ [OpenRead USERS_FILE]\<rparr>)"
  by (cases "files w USERS_FILE")
     (simp_all add: check_auth_def open_read_def c_str_USERS_FILE credentials_ok_def check_lines_iff)

lemma command_loop_stop:
  "command_step w = (False, w') \<Longrightarrow> command_loop w = w'"
  by (subst command_loop.simps) simp

text \<open>
  Claim C5. Let \<open>cmd\<close>, \<open>user\<close> and \<open>pass\<close> be the first three words of the first frame
  of a connection. Unless \<open>cmd\<close> is \<open>AUTH\<close>, \<open>user\<close> and \<open>pass\<close> are not empty and the
  credential check passes, the server sends the single frame \<open>AUTH_FAIL\<close>, closes the
  connection and leaves the rest of the input unread. Otherwise it sends \<open>AUTH_OK\<close> and
  its result is that of the command loop, closed at the end, run from exactly this
  state: the frame \<open>AUTH_OK\<close> sent after what was sent before, the input after the first
  frame still to be read, the credential file logged as opened, all else as at the start.
\<close>

theorem auth_single_attempt:
  assumes line: "fst (recv_line (conn w)) = Some line"
    and tx: "0 \<notin> set (tx_sched (conn w))"
    and cmd: "cmd = fst (extract_word line)"
    and user: "user = fst (extract_word (snd (extract_word line)))"
    and pass: "pass = fst (extract_word (snd (extract_word (snd (extract_word line)))))"
  shows "(\<not> (cmd = ''AUTH'' \<and> user \<noteq> [] \<and> pass \<noteq> [] \<and> credentials_ok (files w) user pass) \<longrightarrow>
            closed (handle_client w)
          \<and> tx (conn (handle_client w)) = tx (conn w) @ frame ''AUTH_FAIL''
          \<and> rx (conn (handle_client w)) = rx (snd (recv_line (conn w))))
     \<and> (cmd = ''AUTH'' \<and> user \<noteq> [] \<and> pass \<noteq> [] \<and> credentials_ok (files w) user pass \<longrightarrow>
          handle_client w
            = (command_loop
                 (reply (w\<lparr>conn := snd (recv_line (conn w)),
                            fs_log := fs_log w @ [OpenRead USERS_FILE]\<rparr>) ''AUTH_OK''))
              \<lparr>closed := True\<rparr>
        \<and> reply (w\<lparr>conn := snd (recv_line (conn w)),
                    fs_log := fs_log w @ [OpenRead USERS_FILE]\<rparr>) ''AUTH_OK''
            = w\<lparr>conn := (snd (recv_line (conn w)))
                    \<lparr>tx := tx (conn w) @ frame ''AUTH_OK'',
                     tx_sched := consume (consume (tx_sched (conn w)) 4) (length ''AUTH_OK'')\<rparr>,
                 fs_log := fs_log w @ [OpenRead USERS_FILE]\<rparr>)"
proof -
  obtain s1 where rl: "recv_line (conn w) = (Some line, s1)"
    using line by (cases "recv_line (conn w)") auto
  let ?w1 = "w\<lparr>conn := s1\<rparr>"
  let ?w2 = "?w1\<lparr>fs_log := fs_log w @ [OpenRead USERS_FILE]\<rparr>"
  have s1: "tx_sched s1 = tx_sched (conn w)" "tx s1 = tx (conn w)"
    using recv_line_Some(2,3) [OF rl] by simp_all
  have tx1: "0 \<notin> set (tx_sched (conn ?w1))" "tx (conn ?w1) = tx (conn w)"
    "0 \<notin> set (tx_sched (conn ?w2))" "tx (conn ?w2) = tx (conn w)"
    using s1 tx by simp_all
  have ca: "check_auth ?w1 user pass = (credentials_ok (files w) user pass, ?w2)"
    by (simp add: check_auth_eq)
  have fail: "closed (handle_client w)
          \<and> tx (conn (handle_client w)) = tx (conn w) @ frame ''AUTH_FAIL''
          \<and> rx (conn (handle_client w)) = rx (snd (recv_line (conn w)))"
    if "\<not> (cmd = ''AUTH'' \<and> user \<noteq> [] \<and> pass \<noteq> [] \<and> credentials_ok (files w) user pass)"
  proof (cases "cmd \<noteq> ''AUTH'' \<or> user = [] \<or> pass = []")
    case True
    then have "handle_client w = (reply ?w1 ''AUTH_FAIL'')\<lparr>closed := True\<rparr>"
      unfolding cmd user pass by (simp add: handle_client_def rl Let_def)
    then show ?thesis using tx1 by (simp add: reply_tx reply_rx rl)
  next
    case False
    then have "\<not> credentials_ok (files w) user pass" using that by blast
    then have "handle_client w = (reply ?w2 ''AUTH_FAIL'')\<lparr>closed := True\<rparr>"
      using False ca unfolding cmd user pass by (simp add: handle_client_def rl Let_def)
    then show ?thesis using tx1 by (simp add: reply_tx reply_rx rl)
  qed
  have w2: "w\<lparr>conn := snd (recv_line (conn w)), fs_log := fs_log w @ [OpenRead USERS_FILE]\<rparr> = ?w2"
    by (simp add: rl)
  have pass_ok: "handle_client w = (command_loop (reply ?w2 ''AUTH_OK''))\<lparr>closed := True\<rparr>"
    if "cmd = ''AUTH'' \<and> user \<noteq> [] \<and> pass \<noteq> [] \<and> credentials_ok (files w) user pass"
    using that ca unfolding cmd user pass by (simp add: handle_client_def rl Let_def)
  have state: "reply ?w2 ''AUTH_OK''
      = w\<lparr>conn := s1\<lparr>tx := tx (conn w) @ frame ''AUTH_OK'',
                       tx_sched := consume (consume (tx_sched (conn w)) 4) (length ''AUTH_OK'')\<rparr>,
           fs_log := fs_log w @ [OpenRead USERS_FILE]\<rparr>"
    using reply_ok [OF tx1(3), of "''AUTH_OK''"] s1 by simp
  have s1': "snd (recv_line (conn w)) = s1" by (simp add: rl)
  show ?thesis unfolding w2 s1' using fail [unfolded s1'] pass_ok state by blast
qed

theorem auth_single_attempt_witness:
  "fst (recv_line (conn (server_with (frame ''AUTH alice wrong'' @ frame ''LIST'')
          (\<lambda>p. if p = ''users.txt'' then Some (Regular (''alice:secret'' @ [CHR 0x0A])) else None) None)))
     = Some ''AUTH alice wrong''
   \<and> closed (handle_client (server_with (frame ''AUTH alice wrong'' @ frame ''LIST'')
          (\<lambda>p. if p = ''users.txt'' then Some (Regular (''alice:secret'' @ [CHR 0x0A])) else None) None))
   \<and> tx (conn (handle_client (server_with (frame ''AUTH alice wrong'' @ frame ''LIST'')
          (\<lambda>p. if p = ''users.txt'' then Some (Regular (''alice:secret'' @ [CHR 0x0A])) else None) None)))
       = frame ''AUTH_FAIL''
   \<and> rx (conn (handle_client (server_with (frame ''AUTH alice wrong'' @ frame ''LIST'')
          (\<lambda>p. if p = ''users.txt'' then Some (Regular (''alice:secret'' @ [CHR 0x0A])) else None) None)))
       = frame ''LIST''
   \<and> closed (handle_client (server_with (frame ''AUTH alice secret'' @ frame ''QUIT'')
          (\<lambda>p. if p = ''users.txt'' then Some (Regular (''alice:secret'' @ [CHR 0x0A])) else None) None))
   \<and> tx (conn (handle_client (server_with (frame ''AUTH alice secret'' @ frame ''QUIT'')
          (\<lambda>p. if p = ''users.txt'' then Some (Regular (''alice:secret'' @ [CHR 0x0A])) else None) None)))
       = frame ''AUTH_OK'' @ frame ''BYE''
   \<and> rx (conn (handle_client (server_with (frame ''AUTH alice secret'' @ frame ''QUIT'')
          (\<lambda>p. if p = ''users.txt'' then Some (Regular (''alice:secret'' @ [CHR 0x0A])) else None) None)))
       = []"
proof -
  let ?fs = "\<lambda>p. if p = ''users.txt'' then Some (Regular (''alice:secret'' @ [CHR 0x0A])) else None"
  let ?w = "server_with (frame ''AUTH alice wrong'' @ frame ''LIST'') ?fs None"
  let ?v = "server_with (frame ''AUTH alice secret'' @ frame ''QUIT'') ?fs None"
  have f: "fst (recv_line (conn ?w)) = Some ''AUTH alice wrong''"
    "rx (snd (recv_line (conn ?w))) = frame ''LIST''"
    using server_with_first_frame [of "''AUTH alice wrong''" "frame ''LIST''" ?fs None] by simp_all
  have g: "fst (recv_line (conn ?v)) = Some ''AUTH alice secret''"
    using server_with_first_frame [of "''AUTH alice secret''" "frame ''QUIT''" ?fs None] by simp
  have gs: "recv_line (conn ?v)
      = (Some ''AUTH alice secret'',
         (conn ?v)\<lparr>rx := frame ''QUIT'',
                   rx_sched := consume (consume (rx_sched (conn ?v)) 4) (length ''AUTH alice secret'')\<rparr>)"
    by (rule recv_line_frame) simp_all
  have t: "0 \<notin> set (tx_sched (conn ?w))" "0 \<notin> set (tx_sched (conn ?v))" by simp_all
  have pw: "''AUTH'' = fst (extract_word ''AUTH alice wrong'')"
    "''alice'' = fst (extract_word (snd (extract_word ''AUTH alice wrong'')))"
    "''wrong'' = fst (extract_word (snd (extract_word (snd (extract_word ''AUTH alice wrong'')))))"
    by (simp_all add: extract_word_def isspace_def)
  have pv: "''AUTH'' = fst (extract_word ''AUTH alice secret'')"
    "''alice'' = fst (extract_word (snd (extract_word ''AUTH alice secret'')))"
    "''secret'' = fst (extract_word (snd (extract_word (snd (extract_word ''AUTH alice secret'')))))"
    by (simp_all add: extract_word_def isspace_def)
  have cw: "\<not> credentials_ok (files ?w) ''alice'' ''wrong''"
    by (simp add: credentials_ok_def USERS_FILE_def store_entries_def)
  have cv: "credentials_ok (files ?v) ''alice'' ''secret''"
    by (simp add: credentials_ok_def USERS_FILE_def store_entries_def)
  from auth_single_attempt [OF f(1) t(1) pw] cw
  have A: "closed (handle_client ?w) \<and> tx (conn (handle_client ?w)) = tx (conn ?w) @ frame ''AUTH_FAIL''
      \<and> rx (conn (handle_client ?w)) = rx (snd (recv_line (conn ?w)))"
    by blast
  define w2 where "w2 = (conn ?v)\<lparr>rx := frame ''QUIT'', rx_sched := [], tx := frame ''AUTH_OK'', tx_sched := []\<rparr>"
  define v2 where "v2 = ?v\<lparr>conn := w2, fs_log := [OpenRead USERS_FILE]\<rparr>"
  from auth_single_attempt [OF g t(2) pv] cv
  have "handle_client ?v
      = (command_loop (reply (?v\<lparr>conn := snd (recv_line (conn ?v)),
                                 fs_log := fs_log ?v @ [OpenRead USERS_FILE]\<rparr>) ''AUTH_OK''))
        \<lparr>closed := True\<rparr>"
    and "reply (?v\<lparr>conn := snd (recv_line (conn ?v)),
                   fs_log := fs_log ?v @ [OpenRead USERS_FILE]\<rparr>) ''AUTH_OK''
      = ?v\<lparr>conn := (snd (recv_line (conn ?v)))
                \<lparr>tx := tx (conn ?v) @ frame ''AUTH_OK'',
                 tx_sched := consume (consume (tx_sched (conn ?v)) 4) (length ''AUTH_OK'')\<rparr>,
            fs_log := fs_log ?v @ [OpenRead USERS_FILE]\<rparr>"
    by blast+
  then have hc: "handle_client ?v = (command_loop v2)\<lparr>closed := True\<rparr>"
    unfolding v2_def w2_def by (simp add: gs)
  have q: "recv_line (conn v2)
      = (Some ''QUIT'', (conn v2)\<lparr>rx := [], rx_sched := consume (consume (rx_sched (conn v2)) 4) (length ''QUIT'')\<rparr>)"
    by (rule recv_line_frame) (simp_all add: v2_def w2_def)
  have cq: "fst (extract_word ''QUIT'') = ''QUIT''"
    by (simp add: extract_word_def isspace_def)
  let ?v3 = "v2\<lparr>conn := (conn v2)\<lparr>rx := [], rx_sched := consume (consume (rx_sched (conn v2)) 4) (length ''QUIT'')\<rparr>\<rparr>"
  have "command_step v2 = (False, reply ?v3 ''BYE'')"
    by (simp add: command_step_def q cq Let_def)
  then have "command_loop v2 = reply ?v3 ''BYE''" by (rule command_loop_stop)
  moreover have "tx (conn (reply ?v3 ''BYE'')) = tx (conn ?v3) @ frame ''BYE''"
    by (rule reply_tx) (simp add: v2_def w2_def)
  moreover have "rx (conn (reply ?v3 ''BYE'')) = rx (conn ?v3)" by (rule reply_rx)
  ultimately have B: "closed (handle_client ?v)
      \<and> tx (conn (handle_client ?v)) = frame ''AUTH_OK'' @ frame ''BYE''
      \<and> rx (conn (handle_client ?v)) = []"
    unfolding hc by (simp add: v2_def w2_def)
  show ?thesis using A B f by simp
qed

end
